theory Spec2Isabelle
  imports Main "HOL-Library.Multiset"
begin

chapter \<open>Definitions: the embedding of the program\<close>

section \<open>Decimal formatting\<close>

text \<open>
  Python renders integers in decimal: \<^verbatim>\<open>str(n)\<close>, \<^verbatim>\<open>f"{n}"\<close> and, zero-padded to
  a minimum width, \<^verbatim>\<open>f"{n:03d}"\<close> / \<^verbatim>\<open>f"{n:04d}"\<close>.  A number with more digits
  than the width is printed in full.
\<close>

definition digit_char :: "nat \<Rightarrow> char" where
  "digit_char d = char_of (48 + d)"

fun str_nat :: "nat \<Rightarrow> string" where
  "str_nat n = (if n < 10 then [digit_char n] else str_nat (n div 10) @ [digit_char (n mod 10)])"

declare str_nat.simps [simp del]

definition str_int :: "int \<Rightarrow> string" where
  "str_int i = (if i < 0 then CHR ''-'' # str_nat (nat (- i)) else str_nat (nat i))"

definition zfill :: "nat \<Rightarrow> string \<Rightarrow> string" where
  "zfill w s = replicate (w - length s) (CHR ''0'') @ s"

definition fmt_0d :: "nat \<Rightarrow> nat \<Rightarrow> string" where
  "fmt_0d w n = zfill w (str_nat n)"

section \<open>Partitioner: \<^verbatim>\<open>run_utils.make_chunks\<close>\<close>

record chunk =
  chunk_id :: string
  page_start :: int
  page_end :: int

text \<open>
  The \<^verbatim>\<open>while start <= total_pages\<close> loop.  With a stride below 1 the source loop
  need not terminate, so the loop is a partial function: \<open>None\<close> is "does not return".
\<close>

partial_function (option) make_chunks_loop ::
  "int \<Rightarrow> int \<Rightarrow> int \<Rightarrow> int \<Rightarrow> nat \<Rightarrow> chunk list \<Rightarrow> chunk list option" where
  "make_chunks_loop total_pages pages_per_partition stride start idx chunks =
     (if start \<le> total_pages then
        (let endp = min (start + pages_per_partition - 1) total_pages;
             chunks' = chunks @ [\<lparr>chunk_id = ''chunk_'' @ fmt_0d 3 idx,
                                  page_start = start, page_end = endp\<rparr>]
         in if endp = total_pages then Some chunks'
            else make_chunks_loop total_pages pages_per_partition stride
                   (start + stride) (idx + 1) chunks')
      else Some chunks)"

declare make_chunks_loop.simps [code]

definition make_chunks :: "int \<Rightarrow> int \<Rightarrow> int \<Rightarrow> chunk list option" where
  "make_chunks total_pages pages_per_partition overlap_pages =
     make_chunks_loop total_pages pages_per_partition
       (pages_per_partition - overlap_pages) 1 1 []"

text \<open>
  The list the loop appends when it is entered with \<open>start = s\<close> and \<open>idx = i\<close>,
  written as a predicate on the list: used to reason about the loop.
\<close>

fun chunks_from :: "int \<Rightarrow> int \<Rightarrow> int \<Rightarrow> int \<Rightarrow> nat \<Rightarrow> chunk list \<Rightarrow> bool" where
  "chunks_from T P S s i [] = (T < s)"
| "chunks_from T P S s i (w # ws) =
     (s \<le> T \<and> w = \<lparr>chunk_id = ''chunk_'' @ fmt_0d 3 i, page_start = s, page_end = min (s + P - 1) T\<rparr>
      \<and> (if min (s + P - 1) T = T then ws = [] else chunks_from T P S (s + S) (Suc i) ws))"

section \<open>Errors\<close>

text \<open>
  A raised exception is a value: the exception class with the fixed part of its message.
\<close>

datatype error =
    ValueError string
  | KeyError string
  | IndexError string
  | TypeError string
  | OSError string
  | Unsupported string

section \<open>The random source\<close>

text \<open>
  \<^verbatim>\<open>random.shuffle\<close> and \<^verbatim>\<open>random.randint\<close> draw from the process-wide generator.  The
  generator is an explicit state here: a tape of raw draws, consumed from the front (an
  exhausted tape keeps answering 0).  \<open>randbelow n\<close> is the generator's primitive, a number
  below \<open>n\<close>; \<open>shuffle\<close> is the library's loop
  \<^verbatim>\<open>for i in reversed(range(1, len(x))): j = randbelow(i + 1); x[i], x[j] = x[j], x[i]\<close>.
\<close>

type_synonym rng = "nat list"

definition randbelow :: "nat \<Rightarrow> rng \<Rightarrow> nat \<times> rng" where
  "randbelow n r = (case r of [] \<Rightarrow> (0, []) | x # r' \<Rightarrow> (x mod n, r'))"

fun shuffle_loop :: "nat \<Rightarrow> 'a list \<Rightarrow> rng \<Rightarrow> 'a list \<times> rng" where
  "shuffle_loop 0 xs r = (xs, r)"
| "shuffle_loop (Suc i) xs r =
     (case randbelow (Suc i + 1) r of
        (j, r') \<Rightarrow> shuffle_loop i (xs[Suc i := xs ! j, j := xs ! Suc i]) r')"

definition shuffle :: "'a list \<Rightarrow> rng \<Rightarrow> 'a list \<times> rng" where
  "shuffle xs r = shuffle_loop (length xs - 1) xs r"

section \<open>Questions\<close>

text \<open>
  A question and a choice are dictionaries in the source; a key that may be absent is an
  \<open>option\<close> field (\<open>None\<close>: the key is missing, so \<^verbatim>\<open>q.get(k)\<close> is \<^verbatim>\<open>None\<close> and
  \<^verbatim>\<open>q[k]\<close> raises).  The values have the types the source annotates and its JSON schema
  declares: strings and lists, so the \<^verbatim>\<open>isinstance(_, list)\<close> tests always hold.  In this
  section a question is a value and the functions return the updated list: the function on
  the contents of the list, as the pipeline calls it, with a fresh dictionary and a fresh
  choice list per question.  The function on objects, where one dictionary may stand at
  several positions, is \<open>postprocess_questions_inplace\<close> below; on lists without such
  sharing the two agree (\<open>postprocess_questions_inplace_values\<close>).
\<close>

record choice =
  choice_id :: "string option"
  choice_text :: "string option"

record question =
  q_id :: "string option"
  question_type :: "string option"
  stem :: "string option"
  choices :: "choice list option"
  correct_choice_ids :: "string list option"
  q_chunk_id :: "string option"
  explanation :: "string option"

section \<open>Postprocessor: \<^verbatim>\<open>postprocess.postprocess_questions\<close>\<close>

text \<open>\<^verbatim>\<open>not cid\<close> for a choice id: the key is missing or the string is empty.\<close>

definition falsy :: "string option \<Rightarrow> bool" where
  "falsy cid = (case cid of None \<Rightarrow> True | Some s \<Rightarrow> s = [])"

text \<open>\<^verbatim>\<open>q.setdefault("explanation", "")\<close>\<close>

definition setdefault_explanation :: "question \<Rightarrow> question" where
  "setdefault_explanation q =
     (case explanation q of None \<Rightarrow> q\<lparr>explanation := Some []\<rparr> | Some e \<Rightarrow> q)"

text \<open>
  The body of the validation loop for one question: the checks in the source's order, each
  raising \<^verbatim>\<open>ValueError\<close>, then the default for \<open>explanation\<close>.
\<close>

definition validate_question :: "string \<Rightarrow> int \<Rightarrow> question \<Rightarrow> error + question" where
  "validate_question qtype choices_per_question q =
     (case stem q of
        None \<Rightarrow> Inl (ValueError ''Question missing 'stem' '')
      | Some s \<Rightarrow>
     (case choices q of
        None \<Rightarrow> Inl (ValueError ''Question missing 'choices' '')
      | Some cs \<Rightarrow>
     (case correct_choice_ids q of
        None \<Rightarrow> Inl (ValueError ''Question missing 'correct_choice_ids' '')
      | Some correct \<Rightarrow>
     (case q_chunk_id q of
        None \<Rightarrow> Inl (ValueError ''Question missing 'chunk_id' '')
      | Some ch \<Rightarrow>
        (if question_type q \<noteq> Some qtype then
           Inl (ValueError ''Question type mismatch with config'')
         else if int (length cs) \<noteq> choices_per_question then
           Inl (ValueError ''Choices count mismatch'')
         else
           (let choice_ids = map choice_id cs in
            if list_ex falsy choice_ids \<or> card (set choice_ids) \<noteq> length choice_ids then
              Inl (ValueError ''Choice ids must be unique and non-empty'')
            else if length correct < 1 then
              Inl (ValueError ''correct_choice_ids must be a non-empty list'')
            else if qtype = ''MCQ'' \<and> length correct \<noteq> 1 then
              Inl (ValueError ''MCQ must have exactly 1 correct choice'')
            else if list_ex (\<lambda>cid. Some cid \<notin> set choice_ids) correct then
              Inl (ValueError ''correct_choice_ids must refer to existing choices'')
            else Inr (setdefault_explanation q)))))))"

text \<open>Step A, the loop over the questions: the first violation raises.\<close>

fun validate_all :: "string \<Rightarrow> int \<Rightarrow> question list \<Rightarrow> error + question list" where
  "validate_all qtype n [] = Inr []"
| "validate_all qtype n (q # qs) =
     (case validate_question qtype n q of
        Inl e \<Rightarrow> Inl e
      | Inr q' \<Rightarrow> (case validate_all qtype n qs of
                     Inl e \<Rightarrow> Inl e
                   | Inr qs' \<Rightarrow> Inr (q' # qs')))"

text \<open>Step C: \<^verbatim>\<open>for q in questions: random.shuffle(q["choices"])\<close>\<close>

fun shuffle_options :: "question list \<Rightarrow> rng \<Rightarrow> error + question list \<times> rng" where
  "shuffle_options [] r = Inr ([], r)"
| "shuffle_options (q # qs) r =
     (case choices q of
        None \<Rightarrow> Inl (KeyError ''choices'')
      | Some cs \<Rightarrow>
          (case shuffle cs r of
             (cs', r') \<Rightarrow>
               (case shuffle_options qs r' of
                  Inl e \<Rightarrow> Inl e
                | Inr (qs', r'') \<Rightarrow> Inr (q\<lparr>choices := Some cs'\<rparr> # qs', r''))))"

text \<open>Step D: \<^verbatim>\<open>for i, q in enumerate(questions, start=1): q["id"] = f"q_{i:04d}"\<close>\<close>

fun assign_ids :: "nat \<Rightarrow> question list \<Rightarrow> question list" where
  "assign_ids i [] = []"
| "assign_ids i (q # qs) = q\<lparr>q_id := Some (''q_'' @ fmt_0d 4 i)\<rparr> # assign_ids (Suc i) qs"

definition postprocess_questions ::
  "question list \<Rightarrow> string \<Rightarrow> int \<Rightarrow> bool \<Rightarrow> bool \<Rightarrow> rng \<Rightarrow> error + question list \<times> rng" where
  "postprocess_questions questions qtype choices_per_question
       randomize_questions randomize_options r =
     (case validate_all qtype choices_per_question questions of
        Inl e \<Rightarrow> Inl e
      | Inr qs1 \<Rightarrow>
          (case (if randomize_questions then shuffle qs1 r else (qs1, r)) of
             (qs2, r2) \<Rightarrow>
               (case (if randomize_options then shuffle_options qs2 r2 else Inr (qs2, r2)) of
                  Inl e \<Rightarrow> Inl e
                | Inr (qs3, r3) \<Rightarrow> Inr (assign_ids 1 qs3, r3))))"

section \<open>Mock generator: \<^verbatim>\<open>mock_llm.mock_generate_questions_for_chunk\<close>\<close>

text \<open>The keys of the configuration that the generators read.\<close>

record config =
  cfg_question_type :: string
  cfg_choices_per_question :: int
  cfg_questions_per_partition :: int
  user_prompt_file :: string
  mcq_prompt_file :: string
  sata_prompt_file :: string

definition mock_choices :: "string \<Rightarrow> int \<Rightarrow> choice list" where
  "mock_choices cid n_choices =
     map (\<lambda>k. \<lparr>choice_id = Some (''c'' @ str_int k),
               choice_text = Some (''Mock option '' @ str_int k @ '' (chunk '' @ cid @ '')'')\<rparr>)
         [1..n_choices]"

definition mock_correct :: "string \<Rightarrow> int \<Rightarrow> string list" where
  "mock_correct qtype n_choices =
     (if qtype = ''MCQ'' then (if n_choices \<ge> 2 then [''c2''] else [''c1''])
      else (if n_choices \<ge> 4 then [''c2'', ''c4'']
            else if n_choices \<ge> 2 then [''c1'', ''c2''] else [''c1'']))"

definition mock_generate_questions_for_chunk :: "chunk \<Rightarrow> config \<Rightarrow> question list" where
  "mock_generate_questions_for_chunk ch cfg =
     (let qtype = cfg_question_type cfg;
          n_choices = cfg_choices_per_question cfg;
          n_q = cfg_questions_per_partition cfg
      in map (\<lambda>i. \<lparr>q_id = None,
                    question_type = Some qtype,
                    stem = Some (''[MOCK] Q'' @ str_int i @ '' for '' @ chunk_id ch @ '' (pages ''
                                 @ str_int (page_start ch) @ ''-'' @ str_int (page_end ch)
                                 @ ''): Which option is correct?''),
                    choices = Some (mock_choices (chunk_id ch) n_choices),
                    correct_choice_ids = Some (mock_correct qtype n_choices),
                    q_chunk_id = Some (chunk_id ch),
                    explanation = Some []\<rparr>)
             [1..n_q])"

text \<open>The value of a decimal numeral: the inverse of \<open>str_nat\<close>, used to show that
  distinct numbers print differently.\<close>

definition nat_of_digits :: "string \<Rightarrow> nat" where
  "nat_of_digits s = foldl (\<lambda>a c. 10 * a + (of_char c - 48)) 0 s"

text \<open>A well-formed question with two choices \<open>c1\<close>, \<open>c2\<close>, for concrete evaluations.\<close>

definition sample_question :: "string \<Rightarrow> string \<Rightarrow> string list \<Rightarrow> question" where
  "sample_question qtype s correct =
     \<lparr>q_id = None, question_type = Some qtype, stem = Some s,
      choices = Some [\<lparr>choice_id = Some ''c1'', choice_text = Some ''yes''\<rparr>,
                      \<lparr>choice_id = Some ''c2'', choice_text = Some ''no''\<rparr>],
      correct_choice_ids = Some correct, q_chunk_id = Some ''chunk_001'',
      explanation = None\<rparr>"

text \<open>A configuration and a chunk, for concrete evaluations.\<close>

definition sample_config :: config where
  "sample_config = \<lparr>cfg_question_type = ''SATA'', cfg_choices_per_question = 4,
      cfg_questions_per_partition = 2, user_prompt_file = ''user.txt'',
      mcq_prompt_file = ''mcq.txt'', sata_prompt_file = ''sata.txt''\<rparr>"

definition sample_chunk :: chunk where
  "sample_chunk = \<lparr>chunk_id = ''chunk_001'', page_start = 1, page_end = 4\<rparr>"

section \<open>Text utilities: \<^verbatim>\<open>text_utils.escape_braces\<close> and the string library\<close>

text \<open>\<^verbatim>\<open>text.replace("{", "{{").replace("}", "}}")\<close>: every brace is doubled.\<close>

definition escape_braces :: "string \<Rightarrow> string" where
  "escape_braces text =
     concat (map (\<lambda>c. if c = CHR ''}'' then ''}}'' else [c])
       (concat (map (\<lambda>c. if c = CHR ''{'' then ''{{'' else [c]) text)))"

text \<open>
  \<^verbatim>\<open>str.strip()\<close> removes leading and trailing whitespace.  A string here is a list of
  code points below 256; those for which \<^verbatim>\<open>str.isspace()\<close> holds are the ASCII ones and
  U+0085, U+00A0.  \<^verbatim>\<open>sep.join(xs)\<close> is \<open>join sep xs\<close>.
\<close>

definition is_space :: "char \<Rightarrow> bool" where
  "is_space c = (c \<in> set [CHR 0x09, CHR 0x0A, CHR 0x0B, CHR 0x0C, CHR 0x0D,
                           CHR 0x1C, CHR 0x1D, CHR 0x1E, CHR 0x1F, CHR 0x20,
                           CHR 0x85, CHR 0xA0])"

definition strip :: "string \<Rightarrow> string" where
  "strip s = rev (dropWhile is_space (rev (dropWhile is_space s)))"

fun join :: "string \<Rightarrow> string list \<Rightarrow> string" where
  "join sep [] = []"
| "join sep [x] = x"
| "join sep (x # y # ys) = x @ sep @ join sep (y # ys)"

section \<open>\<^verbatim>\<open>template.format(**variables)\<close>\<close>

text \<open>
  The library's \<^verbatim>\<open>str.format\<close>, called with keyword arguments only.  The template is
  scanned once, left to right: \<^verbatim>\<open>{{\<close> and \<^verbatim>\<open>}}\<close> stand for one brace, \<^verbatim>\<open>{name}\<close> is
  replaced by the value of the variable \<open>name\<close>, and the value is copied as it is (it is
  not scanned again).  A single \<^verbatim>\<open>}\<close>, an unclosed field or a \<^verbatim>\<open>{\<close> inside a field name
  raise \<^verbatim>\<open>ValueError\<close>; an unknown name raises \<^verbatim>\<open>KeyError\<close>; an empty or numeric name is a
  positional field and raises \<^verbatim>\<open>IndexError\<close>, there being no positional argument.  Fields
  with an attribute, an index, a conversion or a format specification (\<^verbatim>\<open>. [ ! :\<close>) are
  outside this model and answer \<open>Unsupported\<close>.  The variables are an association list, all
  values already rendered as strings (\<^verbatim>\<open>str\<close> of an integer is its decimal numeral).
\<close>

type_synonym variables = "(string \<times> string) list"

definition is_digit :: "char \<Rightarrow> bool" where
  "is_digit c = (c \<in> set ''0123456789'')"

definition get_field :: "variables \<Rightarrow> string \<Rightarrow> error + string" where
  "get_field vars name =
     (if list_all is_digit name then
        Inl (IndexError ''Replacement index out of range for positional args tuple'')
      else (case map_of vars name of
              None \<Rightarrow> Inl (KeyError name)
            | Some v \<Rightarrow> Inr v))"

definition prepend :: "string \<Rightarrow> error + string \<Rightarrow> error + string" where
  "prepend s res = (case res of Inl e \<Rightarrow> Inl e | Inr t \<Rightarrow> Inr (s @ t))"

text \<open>
  The scanner.  The first argument is \<open>None\<close> in literal text and \<open>Some acc\<close> inside a
  replacement field, \<open>acc\<close> being the field name read so far, reversed.
\<close>

fun py_format_from :: "string option \<Rightarrow> string \<Rightarrow> variables \<Rightarrow> error + string" where
  "py_format_from None [] vars = Inr []"
| "py_format_from None (c # cs) vars =
     (if c = CHR ''{'' then
        (case cs of
           [] \<Rightarrow> Inl (ValueError ''Single '{' encountered in format string'')
         | d # ds \<Rightarrow>
             if d = CHR ''{'' then prepend ''{'' (py_format_from None ds vars)
             else py_format_from (Some []) cs vars)
      else if c = CHR ''}'' then
        (case cs of
           [] \<Rightarrow> Inl (ValueError ''Single '}' encountered in format string'')
         | d # ds \<Rightarrow>
             if d = CHR ''}'' then prepend ''}'' (py_format_from None ds vars)
             else Inl (ValueError ''Single '}' encountered in format string''))
      else prepend [c] (py_format_from None cs vars))"
| "py_format_from (Some acc) [] vars = Inl (ValueError ''expected '}' before end of string'')"
| "py_format_from (Some acc) (c # cs) vars =
     (if c = CHR ''}'' then
        (case get_field vars (rev acc) of
           Inl e \<Rightarrow> Inl e
         | Inr v \<Rightarrow> prepend v (py_format_from None cs vars))
      else if c = CHR ''{'' then Inl (ValueError ''unexpected '{' in field name'')
      else if c \<in> set ''.[!:'' then Inl (Unsupported ''field with attribute, index, conversion or format spec'')
      else py_format_from (Some (c # acc)) cs vars)"

definition py_format :: "string \<Rightarrow> variables \<Rightarrow> error + string" where
  "py_format template vars = py_format_from None template vars"

section \<open>Prompt files\<close>

text \<open>
  The file system, as far as \<^verbatim>\<open>path.read_text()\<close> sees it: a map from paths to contents;
  reading a missing file raises \<^verbatim>\<open>OSError\<close>.
\<close>

type_synonym files = "string \<Rightarrow> string option"

definition read_text :: "files \<Rightarrow> string \<Rightarrow> error + string" where
  "read_text fs path = (case fs path of None \<Rightarrow> Inl (OSError path) | Some t \<Rightarrow> Inr t)"

text \<open>\<^verbatim>\<open>generate.render_generator_prompt\<close>\<close>

definition render_generator_prompt :: "files \<Rightarrow> string \<Rightarrow> string \<Rightarrow> variables \<Rightarrow> error + string" where
  "render_generator_prompt fs user_prompt_path fixed_prompt_path vars =
     (case read_text fs user_prompt_path of
        Inl e \<Rightarrow> Inl e
      | Inr user_raw \<Rightarrow>
          (case read_text fs fixed_prompt_path of
             Inl e \<Rightarrow> Inl e
           | Inr fixed_raw \<Rightarrow>
               (let user_text = strip user_raw;
                    fixed_text = strip fixed_raw;
                    combined = strip (user_text @ [CHR 0x0A, CHR 0x0A] @ fixed_text)
                in py_format combined vars)))"

text \<open>\<^verbatim>\<open>explain.render_explain_prompt\<close>\<close>

definition render_explain_prompt :: "files \<Rightarrow> string \<Rightarrow> variables \<Rightarrow> error + string" where
  "render_explain_prompt fs template_path vars =
     (case read_text fs template_path of
        Inl e \<Rightarrow> Inl e
      | Inr template \<Rightarrow> py_format template vars)"

section \<open>The oracle\<close>

text \<open>
  A call of the remote model (\<^verbatim>\<open>call_responses_structured\<close>, \<^verbatim>\<open>call_responses_text\<close>)
  either raises or returns.  The oracle is a function of the number of calls made so far and
  of the prompt, so that its answers may change from one attempt to the next; the number of
  calls is threaded through as state.  \<open>Raises\<close> stands for any exception of the call: a
  failure of the remote service, and for structured output also a text that does not parse
  as JSON (\<^verbatim>\<open>json.loads\<close> raises inside \<^verbatim>\<open>call_responses_structured\<close>).
\<close>

datatype 'a outcome = Raises | Returns 'a

text \<open>
  The parsed JSON of a structured call, as far as the generator reads it:
  \<^verbatim>\<open>data["questions"]\<close> (\<open>None\<close>: no such key) and, in each item, the keys \<open>stem\<close>,
  \<open>choices\<close>, \<open>correct_choice_ids\<close>, each possibly missing.
\<close>

record raw_question =
  raw_stem :: "string option"
  raw_choices :: "choice list option"
  raw_correct_choice_ids :: "string list option"

type_synonym gen_data = "raw_question list option"

type_synonym gen_oracle = "nat \<Rightarrow> string \<Rightarrow> gen_data outcome"

type_synonym text_oracle = "nat \<Rightarrow> string \<Rightarrow> string outcome"

section \<open>Generation orchestrator: \<^verbatim>\<open>generate.llm_generate_questions_for_chunk\<close>\<close>

text \<open>\<^verbatim>\<open>llm_schemas.generation_schema\<close>: only its check matters here; the schema itself
  goes to the oracle.\<close>

definition generation_schema :: "int \<Rightarrow> error + int" where
  "generation_schema choices_per_question =
     (if choices_per_question < 2 then Inl (ValueError ''choices_per_question must be >= 2'')
      else Inr choices_per_question)"

text \<open>
  \<^verbatim>\<open>random.randint(a, b)\<close> for \<open>a \<le> b\<close> (the generator calls it with \<open>a = 1\<close> and
  \<open>b = choices_per_q\<close>, after \<open>generation_schema\<close> has refused \<open>choices_per_q < 2\<close>), and the
  comprehension that draws one count per requested question.
\<close>

definition randint :: "int \<Rightarrow> int \<Rightarrow> rng \<Rightarrow> int \<times> rng" where
  "randint a b r = (case randbelow (nat (b - a + 1)) r of (j, r') \<Rightarrow> (a + int j, r'))"

fun randints :: "nat \<Rightarrow> int \<Rightarrow> int \<Rightarrow> rng \<Rightarrow> int list \<times> rng" where
  "randints 0 a b r = ([], r)"
| "randints (Suc k) a b r =
     (case randint a b r of
        (x, r1) \<Rightarrow> (case randints k a b r1 of (xs, r2) \<Rightarrow> (x # xs, r2)))"

text \<open>
  Everything before the retry loop: the schema check, the SATA note with its random counts,
  and the rendered prompt, the chunk text brace-escaped.
\<close>

definition generator_prompt ::
  "files \<Rightarrow> config \<Rightarrow> string \<Rightarrow> rng \<Rightarrow> error + string \<times> rng" where
  "generator_prompt fs cfg chunk_text r =
     (let qtype = cfg_question_type cfg;
          choices_per_q = cfg_choices_per_question cfg;
          questions_per_partition = cfg_questions_per_partition cfg
      in case generation_schema choices_per_q of
           Inl e \<Rightarrow> Inl e
         | Inr schema \<Rightarrow>
             (let fixed_prompt_file =
                    (if qtype = ''MCQ'' then mcq_prompt_file cfg else sata_prompt_file cfg)
              in case (if qtype = ''SATA'' then
                         (case randints (nat questions_per_partition) 1 choices_per_q r of
                            (counts, r') \<Rightarrow>
                              (''SATA only: Use these exact correct-choice counts per question, in order: ''
                                 @ join '', '' (map str_int counts) @ ''.'', r'))
                       else ([], r)) of
                   (correct_counts_note, r') \<Rightarrow>
                     (case render_generator_prompt fs (user_prompt_file cfg) fixed_prompt_file
                             [(''question_type'', qtype),
                              (''choices_per_question'', str_int choices_per_q),
                              (''questions_per_partition'', str_int questions_per_partition),
                              (''context'', escape_braces chunk_text),
                              (''correct_counts_note'', correct_counts_note)] of
                        Inl e \<Rightarrow> Inl e
                      | Inr prompt \<Rightarrow> Inr (prompt, r'))))"

text \<open>
  The retry loop \<^verbatim>\<open>for attempt in range(1, retries + 1)\<close>.  It ends in one of three ways:
  a call returned (\<^verbatim>\<open>break\<close>), the last attempt raised (\<^verbatim>\<open>return []\<close>), or the range was
  empty and \<open>data\<close> is still \<^verbatim>\<open>None\<close>.
\<close>

datatype attempts_result = Data gen_data | Returned_Empty | No_Data

fun generate_attempts ::
  "gen_oracle \<Rightarrow> string \<Rightarrow> int \<Rightarrow> int list \<Rightarrow> nat \<Rightarrow> attempts_result \<times> nat" where
  "generate_attempts client prompt retries [] calls = (No_Data, calls)"
| "generate_attempts client prompt retries (attempt # rest) calls =
     (case client calls prompt of
        Returns data \<Rightarrow> (Data data, Suc calls)
      | Raises \<Rightarrow>
          if attempt < retries then generate_attempts client prompt retries rest (Suc calls)
          else (Returned_Empty, Suc calls))"

text \<open>The mapping loop \<^verbatim>\<open>for q in data["questions"]: out.append({...})\<close>.\<close>

fun wrap_questions :: "string \<Rightarrow> string \<Rightarrow> raw_question list \<Rightarrow> error + question list" where
  "wrap_questions qtype cid [] = Inr []"
| "wrap_questions qtype cid (q # qs) =
     (case raw_stem q of None \<Rightarrow> Inl (KeyError ''stem'') | Some s \<Rightarrow>
     (case raw_choices q of None \<Rightarrow> Inl (KeyError ''choices'') | Some cs \<Rightarrow>
     (case raw_correct_choice_ids q of None \<Rightarrow> Inl (KeyError ''correct_choice_ids'') | Some cc \<Rightarrow>
     (case wrap_questions qtype cid qs of
        Inl e \<Rightarrow> Inl e
      | Inr out \<Rightarrow>
          Inr (\<lparr>q_id = None, question_type = Some qtype, stem = Some s, choices = Some cs,
                correct_choice_ids = Some cc, q_chunk_id = Some cid,
                explanation = Some []\<rparr> # out)))))"

definition questions_of_data :: "string \<Rightarrow> string \<Rightarrow> gen_data \<Rightarrow> error + question list" where
  "questions_of_data qtype cid data =
     (case data of None \<Rightarrow> Inl (KeyError ''questions'') | Some qs \<Rightarrow> wrap_questions qtype cid qs)"

text \<open>
  The function returns the questions with the random source and the call count as it leaves
  them; an exception (\<open>Inl\<close>) propagates to the caller, which has no handler around it.
\<close>

definition llm_generate_questions_for_chunk ::
  "files \<Rightarrow> gen_oracle \<Rightarrow> chunk \<Rightarrow> config \<Rightarrow> string \<Rightarrow> int \<Rightarrow> rng \<Rightarrow> nat
     \<Rightarrow> error + question list \<times> rng \<times> nat" where
  "llm_generate_questions_for_chunk fs client ch cfg chunk_text retries r calls =
     (case generator_prompt fs cfg chunk_text r of
        Inl e \<Rightarrow> Inl e
      | Inr (prompt, r') \<Rightarrow>
          (case generate_attempts client prompt retries [1..retries] calls of
             (Returned_Empty, calls') \<Rightarrow> Inr ([], r', calls')
           | (No_Data, calls') \<Rightarrow> Inl (TypeError ''NoneType object is not subscriptable'')
           | (Data data, calls') \<Rightarrow>
               (case questions_of_data (cfg_question_type cfg) (chunk_id ch) data of
                  Inl e \<Rightarrow> Inl e
                | Inr out \<Rightarrow> Inr (out, r', calls'))))"

section \<open>Explanation enricher: \<^verbatim>\<open>explain.add_explanations_for_wrong_questions\<close>\<close>

text \<open>
  \<^verbatim>\<open>chr(ord("A") + idx)\<close>: the letter of the choice at position \<open>idx\<close>; one code
  point, exact for the positions below 191 (a question has a handful of choices).
\<close>

definition letter :: "nat \<Rightarrow> string" where
  "letter idx = [char_of (65 + idx)]"

definition format_choices_with_letters :: "choice list \<Rightarrow> string" where
  "format_choices_with_letters cs =
     join [CHR 0x0A]
       (map (\<lambda>(idx, c). letter idx @ ''. '' @ (case choice_text c of None \<Rightarrow> [] | Some t \<Rightarrow> t))
            (enumerate 0 cs))"

text \<open>The dictionary \<open>id_to_letter\<close> keeps the last position of an id; ids that are
  missing or empty are left out.\<close>

definition id_to_letter :: "choice list \<Rightarrow> string \<Rightarrow> string option" where
  "id_to_letter cs =
     map_of (rev (concat (map (\<lambda>(idx, c). case choice_id c of
                                              None \<Rightarrow> []
                                            | Some cid \<Rightarrow> if cid = [] then [] else [(cid, letter idx)])
                              (enumerate 0 cs))))"

definition format_correct_letters :: "choice list \<Rightarrow> string list \<Rightarrow> string" where
  "format_correct_letters cs correct_ids =
     join '', '' (map (\<lambda>cid. case id_to_letter cs cid of None \<Rightarrow> ''?'' | Some l \<Rightarrow> l) correct_ids)"

text \<open>The prompt for one question: stem, choices and correct letters, each brace-escaped.\<close>

definition explain_prompt :: "files \<Rightarrow> string \<Rightarrow> question \<Rightarrow> error + string" where
  "explain_prompt fs explain_prompt_file q =
     (let stem_text = (case stem q of None \<Rightarrow> [] | Some s \<Rightarrow> s);
          cs = (case choices q of None \<Rightarrow> [] | Some cs \<Rightarrow> cs);
          correct_ids = (case correct_choice_ids q of None \<Rightarrow> [] | Some cc \<Rightarrow> cc)
      in render_explain_prompt fs explain_prompt_file
           [(''stem'', escape_braces stem_text),
            (''choices'', escape_braces (format_choices_with_letters cs)),
            (''correct_choice_ids'', escape_braces (format_correct_letters cs correct_ids))])"

text \<open>
  The retry loop of the enricher: the first call that returns gives the explanation
  (stripped); a call that raises is only logged.  \<open>None\<close>: every attempt raised.
\<close>

fun explain_attempts :: "text_oracle \<Rightarrow> string \<Rightarrow> int list \<Rightarrow> nat \<Rightarrow> string option \<times> nat" where
  "explain_attempts client prompt [] calls = (None, calls)"
| "explain_attempts client prompt (attempt # rest) calls =
     (case client calls prompt of
        Returns t \<Rightarrow> (Some (strip t), Suc calls)
      | Raises \<Rightarrow> explain_attempts client prompt rest (Suc calls))"

text \<open>
  \<open>by_id\<close>: the dictionary \<^verbatim>\<open>{q.get("id"): q for q in questions}\<close>, as the position of the
  question an id maps to (the last one with that id).  The dictionary holds the question
  objects of the list itself, so a write through it is a write to the list at that position.
  A question found this way has an \<open>id\<close> key, so it is not the empty dictionary and
  \<^verbatim>\<open>not q\<close> holds exactly when the lookup failed.
\<close>

definition by_id_index :: "question list \<Rightarrow> string \<Rightarrow> nat option" where
  "by_id_index questions qid =
     (case filter (\<lambda>i. q_id (questions ! i) = Some qid) (rev [0..<length questions]) of
        [] \<Rightarrow> None
      | i # _ \<Rightarrow> Some i)"

text \<open>The state of the loop over \<open>wrong_ids\<close>: the questions, the three counters (which the
  source reports through its logger) and the number of oracle calls made.\<close>

record explain_state =
  st_questions :: "question list"
  updated :: nat
  skipped_missing :: nat
  skipped_failed :: nat
  st_calls :: nat

fun explain_each ::
  "files \<Rightarrow> text_oracle \<Rightarrow> string \<Rightarrow> int \<Rightarrow> (string \<Rightarrow> nat option) \<Rightarrow> string list
     \<Rightarrow> explain_state \<Rightarrow> error + explain_state" where
  "explain_each fs client explain_prompt_file retries by_id [] st = Inr st"
| "explain_each fs client explain_prompt_file retries by_id (qid # rest) st =
     (case by_id qid of
        None \<Rightarrow>
          explain_each fs client explain_prompt_file retries by_id rest
            (st\<lparr>skipped_missing := skipped_missing st + 1\<rparr>)
      | Some i \<Rightarrow>
          (case explain_prompt fs explain_prompt_file (st_questions st ! i) of
             Inl e \<Rightarrow> Inl e
           | Inr prompt \<Rightarrow>
               (case explain_attempts client prompt [1..retries] (st_calls st) of
                  (None, calls') \<Rightarrow>
                    explain_each fs client explain_prompt_file retries by_id rest
                      (st\<lparr>skipped_failed := skipped_failed st + 1, st_calls := calls'\<rparr>)
                | (Some text, calls') \<Rightarrow>
                    explain_each fs client explain_prompt_file retries by_id rest
                      (st\<lparr>st_questions :=
                            (st_questions st)[i := (st_questions st ! i)\<lparr>explanation := Some text\<rparr>],
                          updated := updated st + 1, st_calls := calls'\<rparr>))))"

text \<open>The run output, as loaded from \<^verbatim>\<open>output.json\<close>; \<open>out_questions\<close> is \<open>None\<close> when the
  key is missing (\<^verbatim>\<open>output.get("questions", [])\<close> is then a fresh empty list).\<close>

record settings =
  set_question_type :: string
  set_choices_per_question :: int
  set_randomize_questions :: bool
  set_randomize_options :: bool

record run_output =
  schema_version :: int
  run_id :: string
  context_file :: string
  run_settings :: settings
  out_questions :: "question list option"

definition questions_of :: "run_output \<Rightarrow> question list" where
  "questions_of output = (case out_questions output of None \<Rightarrow> [] | Some qs \<Rightarrow> qs)"

definition add_explanations_for_wrong_questions ::
  "files \<Rightarrow> run_output \<Rightarrow> string list \<Rightarrow> string \<Rightarrow> text_oracle \<Rightarrow> int \<Rightarrow> nat
     \<Rightarrow> error + run_output \<times> explain_state" where
  "add_explanations_for_wrong_questions fs output wrong_ids explain_prompt_file client retries calls =
     (let questions = questions_of output in
      case explain_each fs client explain_prompt_file retries (by_id_index questions) wrong_ids
             \<lparr>st_questions = questions, updated = 0, skipped_missing = 0, skipped_failed = 0,
              st_calls = calls\<rparr> of
        Inl e \<Rightarrow> Inl e
      | Inr st \<Rightarrow>
          Inr (output\<lparr>out_questions := map_option (\<lambda>_. st_questions st) (out_questions output)\<rparr>,
               st))"

text \<open>What the loop does to its state for an unknown id.\<close>

definition bump :: "explain_state \<Rightarrow> explain_state" where
  "bump s = s\<lparr>skipped_missing := skipped_missing s + 1\<rparr>"

text \<open>Files, oracles and a run output, for concrete evaluations.\<close>

definition sample_files :: files where
  "sample_files = map_of
     [(''user.txt'', ''Context: {context}''),
      (''mcq.txt'', ''Write {questions_per_partition} {question_type} questions.''),
      (''sata.txt'', ''Write {questions_per_partition} {question_type} questions. {correct_counts_note}''),
      (''explain.txt'', ''Q: {stem}'')]"

definition mcq_config :: config where
  "mcq_config = \<lparr>cfg_question_type = ''MCQ'', cfg_choices_per_question = 2,
      cfg_questions_per_partition = 1, user_prompt_file = ''user.txt'',
      mcq_prompt_file = ''mcq.txt'', sata_prompt_file = ''sata.txt''\<rparr>"

definition good_item :: raw_question where
  "good_item = \<lparr>raw_stem = Some ''s'',
      raw_choices = Some [\<lparr>choice_id = Some ''c1'', choice_text = Some ''yes''\<rparr>,
                          \<lparr>choice_id = Some ''c2'', choice_text = Some ''no''\<rparr>],
      raw_correct_choice_ids = Some [''c1'']\<rparr>"

definition always_raises :: "nat \<Rightarrow> string \<Rightarrow> 'a outcome" where
  "always_raises calls prompt = Raises"

definition nonconforming_then_good :: gen_oracle where
  "nonconforming_then_good calls prompt = (if calls = 0 then Returns None else Returns (Some [good_item]))"

definition answers :: text_oracle where
  "answers calls prompt = Returns '' because ''"

definition sample_output :: run_output where
  "sample_output = \<lparr>schema_version = 1, run_id = ''run'', context_file = ''doc.pdf'',
      run_settings = \<lparr>set_question_type = ''MCQ'', set_choices_per_question = 2,
                      set_randomize_questions = False, set_randomize_options = False\<rparr>,
      out_questions = Some [(sample_question ''MCQ'' ''a {b}'' [''c1''])\<lparr>q_id := Some ''q_0001''\<rparr>,
                            (sample_question ''MCQ'' ''b'' [''c2''])\<lparr>q_id := Some ''q_0002''\<rparr>]\<rparr>"

section \<open>Postprocessor on objects: \<^verbatim>\<open>postprocess_questions\<close> as it mutates\<close>

text \<open>
  The source works on objects.  \<open>questions\<close> is a list of references to dictionaries, and
  the value of a dictionary's \<open>choices\<close> key is a reference to a list; the same dictionary
  may stand at several positions of \<open>questions\<close>, and two dictionaries may hold the same
  choice list.  \<^verbatim>\<open>q.setdefault("explanation", "")\<close> and \<^verbatim>\<open>q["id"] = ...\<close> write to the
  dictionary, \<^verbatim>\<open>random.shuffle(q["choices"])\<close> writes to the list object and
  \<^verbatim>\<open>random.shuffle(questions)\<close> permutes the references.  The heap maps references to
  the objects; the function returns the list of references it was given (permuted) and the
  caller reads the questions through the heap.  The choice dictionaries and the
  \<open>correct_choice_ids\<close> lists are only read, so they stay values.
\<close>

type_synonym ref = nat

record question_dict =
  d_id :: "string option"
  d_question_type :: "string option"
  d_stem :: "string option"
  d_choices :: "ref option"
  d_correct_choice_ids :: "string list option"
  d_chunk_id :: "string option"
  d_explanation :: "string option"

record heap =
  dicts :: "ref \<Rightarrow> question_dict"
  lists :: "ref \<Rightarrow> choice list"

text \<open>The question a reference stands for: what reading its keys gives.\<close>

definition deref :: "heap \<Rightarrow> ref \<Rightarrow> question" where
  "deref h r =
     (let d = dicts h r
      in \<lparr>q_id = d_id d, question_type = d_question_type d, stem = d_stem d,
          choices = map_option (lists h) (d_choices d),
          correct_choice_ids = d_correct_choice_ids d, q_chunk_id = d_chunk_id d,
          explanation = d_explanation d\<rparr>)"

definition setdefault_explanation_dict :: "question_dict \<Rightarrow> question_dict" where
  "setdefault_explanation_dict d =
     (case d_explanation d of None \<Rightarrow> d\<lparr>d_explanation := Some []\<rparr> | Some e \<Rightarrow> d)"

text \<open>Step A: the checks of \<open>validate_question\<close> on what the reference reads, then the
  default written to the dictionary.\<close>

fun validate_refs :: "string \<Rightarrow> int \<Rightarrow> heap \<Rightarrow> ref list \<Rightarrow> error + heap" where
  "validate_refs qtype n h [] = Inr h"
| "validate_refs qtype n h (r # rs) =
     (case validate_question qtype n (deref h r) of
        Inl e \<Rightarrow> Inl e
      | Inr _ \<Rightarrow>
          validate_refs qtype n
            (h\<lparr>dicts := (dicts h)(r := setdefault_explanation_dict (dicts h r))\<rparr>) rs)"

text \<open>Step C: each question's choice list is shuffled where it lies.\<close>

fun shuffle_options_refs :: "heap \<Rightarrow> ref list \<Rightarrow> rng \<Rightarrow> error + heap \<times> rng" where
  "shuffle_options_refs h [] g = Inr (h, g)"
| "shuffle_options_refs h (r # rs) g =
     (case d_choices (dicts h r) of
        None \<Rightarrow> Inl (KeyError ''choices'')
      | Some l \<Rightarrow>
          (case shuffle (lists h l) g of
             (cs', g') \<Rightarrow> shuffle_options_refs (h\<lparr>lists := (lists h)(l := cs')\<rparr>) rs g'))"

text \<open>Step D: the id is written to the dictionary at each position in turn, so a
  dictionary that stands at two positions keeps the id of the later one.\<close>

fun assign_ids_refs :: "nat \<Rightarrow> heap \<Rightarrow> ref list \<Rightarrow> heap" where
  "assign_ids_refs i h [] = h"
| "assign_ids_refs i h (r # rs) =
     assign_ids_refs (Suc i)
       (h\<lparr>dicts := (dicts h)(r := (dicts h r)\<lparr>d_id := Some (''q_'' @ fmt_0d 4 i)\<rparr>)\<rparr>) rs"

definition postprocess_questions_inplace ::
  "ref list \<Rightarrow> string \<Rightarrow> int \<Rightarrow> bool \<Rightarrow> bool \<Rightarrow> rng \<Rightarrow> heap
     \<Rightarrow> error + ref list \<times> heap \<times> rng" where
  "postprocess_questions_inplace questions qtype choices_per_question
       randomize_questions randomize_options g h =
     (case validate_refs qtype choices_per_question h questions of
        Inl e \<Rightarrow> Inl e
      | Inr h1 \<Rightarrow>
          (case (if randomize_questions then shuffle questions g else (questions, g)) of
             (qs2, g2) \<Rightarrow>
               (case (if randomize_options then shuffle_options_refs h1 qs2 g2
                      else Inr (h1, g2)) of
                  Inl e \<Rightarrow> Inl e
                | Inr (h3, g3) \<Rightarrow> Inr (qs2, assign_ids_refs 1 h3 qs2, g3))))"

text \<open>A heap with two question dictionaries (at 0 and 1) and their choice lists (at 0 and
  1), for concrete evaluations.\<close>

definition sample_dict :: "string \<Rightarrow> ref \<Rightarrow> string list \<Rightarrow> question_dict" where
  "sample_dict s l correct =
     \<lparr>d_id = None, d_question_type = Some ''MCQ'', d_stem = Some s, d_choices = Some l,
      d_correct_choice_ids = Some correct, d_chunk_id = Some ''chunk_001'',
      d_explanation = None\<rparr>"

definition sample_heap :: heap where
  "sample_heap =
     \<lparr>dicts = (\<lambda>r. if r = 0 then sample_dict ''a'' 0 [''c1''] else sample_dict ''b'' 1 [''c2'']),
      lists = (\<lambda>l. [\<lparr>choice_id = Some ''c1'', choice_text = Some ''yes''\<rparr>,
                      \<lparr>choice_id = Some ''c2'', choice_text = Some ''no''\<rparr>])\<rparr>"

text \<open>The ids the caller reads from the returned list (none when the call raised).\<close>

definition returned_ids :: "error + ref list \<times> heap \<times> rng \<Rightarrow> string option list" where
  "returned_ids res =
     (case res of Inl e \<Rightarrow> [] | Inr (qs, h, g) \<Rightarrow> map (\<lambda>r. q_id (deref h r)) qs)"

chapter \<open>Properties\<close>

section \<open>Partitioner\<close>

lemma make_chunks_loop_chunks_from:
  assumes "1 \<le> S"
  shows "\<exists>rest. make_chunks_loop T P S s i acc = Some (acc @ rest) \<and> chunks_from T P S s i rest"
proof (induction "nat (T + 1 - s)" arbitrary: s i acc rule: less_induct)
  case less
  show ?case
  proof (cases "s \<le> T")
    case False
    then show ?thesis by (subst make_chunks_loop.simps) (auto intro: exI[of _ "[]"])
  next
    case True
    show ?thesis
    proof (cases "min (s + P - 1) T = T")
      case e: True
      show ?thesis
        apply (subst make_chunks_loop.simps)
        using True e by (auto simp: Let_def intro!: exI[of _ "[\<lparr>chunk_id = ''chunk_'' @ fmt_0d 3 i, page_start = s, page_end = min (s + P - 1) T\<rparr>]"])
    next
      case e: False
      have "nat (T + 1 - (s + S)) < nat (T + 1 - s)" using True assms by linarith
      from less[OF this, of "Suc i" "acc @ [\<lparr>chunk_id = ''chunk_'' @ fmt_0d 3 i, page_start = s, page_end = min (s + P - 1) T\<rparr>]"]
      obtain rest where r: "make_chunks_loop T P S (s + S) (Suc i) (acc @ [\<lparr>chunk_id = ''chunk_'' @ fmt_0d 3 i, page_start = s, page_end = min (s + P - 1) T\<rparr>]) = Some ((acc @ [\<lparr>chunk_id = ''chunk_'' @ fmt_0d 3 i, page_start = s, page_end = min (s + P - 1) T\<rparr>]) @ rest)" "chunks_from T P S (s + S) (Suc i) rest"
        by blast
      show ?thesis
        apply (subst make_chunks_loop.simps)
        using True e r by (auto simp: Let_def intro!: exI[of _ "\<lparr>chunk_id = ''chunk_'' @ fmt_0d 3 i, page_start = s, page_end = min (s + P - 1) T\<rparr> # rest"])
    qed
  qed
qed

lemma chunks_from_bounds:
  "chunks_from T P S s i ws \<Longrightarrow> 1 \<le> S \<Longrightarrow> 1 \<le> P \<Longrightarrow> 1 \<le> s \<Longrightarrow> w \<in> set ws \<Longrightarrow>
     1 \<le> page_start w \<and> page_start w \<le> page_end w \<and> page_end w \<le> T"
proof (induction ws arbitrary: s i)
  case Nil then show ?case by simp
next
  case (Cons a ws)
  then show ?case by (auto split: if_splits)
qed

lemma chunks_from_union:
  "chunks_from T P S s i ws \<Longrightarrow> 1 \<le> S \<Longrightarrow> S \<le> P \<Longrightarrow> (\<Union>w\<in>set ws. {page_start w..page_end w}) = {s..T}"
proof (induction ws arbitrary: s i)
  case Nil then show ?case by simp
next
  case (Cons a ws)
  show ?case
  proof (cases "min (s + P - 1) T = T")
    case True
    then show ?thesis using Cons.prems by auto
  next
    case False
    with Cons.prems have c: "chunks_from T P S (s + S) (Suc i) ws" and a: "page_start a = s" "page_end a = s + P - 1" "s + P - 1 < T"
      by (auto simp: min_def split: if_splits)
    from Cons.IH[OF c Cons.prems(2,3)] have "(\<Union>w\<in>set ws. {page_start w..page_end w}) = {s + S..T}" .
    then show ?thesis using a Cons.prems(2,3) by auto
  qed
qed

lemma chunks_from_pairs:
  "chunks_from T P S s i ws \<Longrightarrow> 1 \<le> S \<Longrightarrow> S \<le> P \<Longrightarrow> Suc k < length ws \<Longrightarrow>
     page_start (ws ! k) < page_start (ws ! Suc k) \<and>
     page_start (ws ! Suc k) \<le> page_end (ws ! k) + 1 \<and>
     page_end (ws ! k) < page_end (ws ! Suc k) \<and>
     card ({page_start (ws ! k)..page_end (ws ! k)} \<inter> {page_start (ws ! Suc k)..page_end (ws ! Suc k)}) = nat (P - S)"
proof (induction ws arbitrary: s i k)
  case Nil then show ?case by simp
next
  case (Cons a ws)
  from Cons.prems(4) obtain b ws' where ws: "ws = b # ws'" by (cases ws) auto
  with Cons.prems have ne: "min (s + P - 1) T \<noteq> T" by (auto split: if_splits)
  with Cons.prems have c: "chunks_from T P S (s + S) (Suc i) ws" and a: "page_start a = s" "page_end a = s + P - 1" "s + P - 1 < T"
    by (auto simp: min_def split: if_splits)
  show ?case
  proof (cases k)
    case 0
    from c ws have b: "page_start b = s + S" "page_end b = min (s + S + P - 1) T" by auto
    have "{page_start a..page_end a} \<inter> {page_start b..page_end b} = {s + S..s + P - 1}"
      using a b Cons.prems(2,3) by (auto simp: min_def)
    then show ?thesis using 0 ws a b Cons.prems(2,3) by (auto simp: min_def)
  next
    case (Suc j)
    with Cons.prems(4) have "Suc j < length ws" by simp
    from Cons.IH[OF c Cons.prems(2,3) this] show ?thesis unfolding Suc nth_Cons_Suc .
  qed
qed

text \<open>
  Claim C1.  For \<open>total_pages \<ge> 0\<close>, \<open>pages_per_partition \<ge> 1\<close> and
  \<open>0 \<le> overlap_pages < pages_per_partition\<close>, \<open>make_chunks\<close> returns, and its windows
  union to exactly the pages \<open>1..total_pages\<close> (none when \<open>total_pages = 0\<close>); every window
  satisfies \<open>1 \<le> page_start \<le> page_end \<le> total_pages\<close>; consecutive windows advance, leave
  no gap, and share exactly \<open>overlap_pages\<close> pages.  The last pair shares exactly
  \<open>overlap_pages\<close> pages as well, which the claim allows ("may overlap by more").
\<close>

theorem make_chunks_windows:
  assumes "0 \<le> total_pages" and "1 \<le> pages_per_partition"
    and "0 \<le> overlap_pages" and "overlap_pages < pages_per_partition"
  shows "\<exists>ws. make_chunks total_pages pages_per_partition overlap_pages = Some ws
      \<and> (\<Union>w\<in>set ws. {page_start w..page_end w}) = {1..total_pages}
      \<and> (total_pages = 0 \<longrightarrow> ws = [])
      \<and> (\<forall>w\<in>set ws. 1 \<le> page_start w \<and> page_start w \<le> page_end w \<and> page_end w \<le> total_pages)
      \<and> (\<forall>k. Suc k < length ws \<longrightarrow>
             page_start (ws ! k) < page_start (ws ! Suc k)
           \<and> page_start (ws ! Suc k) \<le> page_end (ws ! k) + 1
           \<and> page_end (ws ! k) < page_end (ws ! Suc k)
           \<and> card ({page_start (ws ! k)..page_end (ws ! k)} \<inter>
                     {page_start (ws ! Suc k)..page_end (ws ! Suc k)}) = nat overlap_pages)"
proof -
  let ?S = "pages_per_partition - overlap_pages"
  have S: "1 \<le> ?S" "?S \<le> pages_per_partition" using assms by auto
  from make_chunks_loop_chunks_from[OF S(1), of total_pages pages_per_partition 1 1 "[]"]
  obtain ws where ws: "make_chunks total_pages pages_per_partition overlap_pages = Some ws"
    and ch: "chunks_from total_pages pages_per_partition ?S 1 1 ws"
    by (auto simp: make_chunks_def)
  have u: "(\<Union>w\<in>set ws. {page_start w..page_end w}) = {1..total_pages}"
    by (rule chunks_from_union[OF ch S])
  have z: "total_pages = 0 \<longrightarrow> ws = []" using ch by (cases ws) auto
  have b: "\<forall>w\<in>set ws. 1 \<le> page_start w \<and> page_start w \<le> page_end w \<and> page_end w \<le> total_pages"
    using chunks_from_bounds[OF ch S(1) assms(2)] by simp
  have p: "\<forall>k. Suc k < length ws \<longrightarrow>
             page_start (ws ! k) < page_start (ws ! Suc k)
           \<and> page_start (ws ! Suc k) \<le> page_end (ws ! k) + 1
           \<and> page_end (ws ! k) < page_end (ws ! Suc k)
           \<and> card ({page_start (ws ! k)..page_end (ws ! k)} \<inter>
                     {page_start (ws ! Suc k)..page_end (ws ! Suc k)}) = nat overlap_pages"
  proof (intro allI impI)
    fix k assume k: "Suc k < length ws"
    have eq: "pages_per_partition - ?S = overlap_pages" by simp
    from chunks_from_pairs[OF ch S k] show "page_start (ws ! k) < page_start (ws ! Suc k)
           \<and> page_start (ws ! Suc k) \<le> page_end (ws ! k) + 1
           \<and> page_end (ws ! k) < page_end (ws ! Suc k)
           \<and> card ({page_start (ws ! k)..page_end (ws ! k)} \<inter>
                     {page_start (ws ! Suc k)..page_end (ws ! Suc k)}) = nat overlap_pages"
      unfolding eq .
  qed
  from ws u z b p show ?thesis by blast
qed

theorem make_chunks_windows_witness:
  "make_chunks 10 4 1 = Some [\<lparr>chunk_id = ''chunk_001'', page_start = 1, page_end = 4\<rparr>, \<lparr>chunk_id = ''chunk_002'', page_start = 4, page_end = 7\<rparr>, \<lparr>chunk_id = ''chunk_003'', page_start = 7, page_end = 10\<rparr>]
   \<and> (\<exists>ws. make_chunks 10 4 1 = Some ws
      \<and> (\<Union>w\<in>set ws. {page_start w..page_end w}) = {1..10}
      \<and> ((10::int) = 0 \<longrightarrow> ws = [])
      \<and> (\<forall>w\<in>set ws. 1 \<le> page_start w \<and> page_start w \<le> page_end w \<and> page_end w \<le> 10)
      \<and> (\<forall>k. Suc k < length ws \<longrightarrow>
             page_start (ws ! k) < page_start (ws ! Suc k)
           \<and> page_start (ws ! Suc k) \<le> page_end (ws ! k) + 1
           \<and> page_end (ws ! k) < page_end (ws ! Suc k)
           \<and> card ({page_start (ws ! k)..page_end (ws ! k)} \<inter>
                     {page_start (ws ! Suc k)..page_end (ws ! Suc k)}) = nat 1))"
proof -
  have e: "make_chunks 10 4 1 = Some [\<lparr>chunk_id = ''chunk_001'', page_start = 1, page_end = 4\<rparr>, \<lparr>chunk_id = ''chunk_002'', page_start = 4, page_end = 7\<rparr>, \<lparr>chunk_id = ''chunk_003'', page_start = 7, page_end = 10\<rparr>]"
    by code_simp
  have h: "\<exists>ws. make_chunks 10 4 1 = Some ws
      \<and> (\<Union>w\<in>set ws. {page_start w..page_end w}) = {1..10}
      \<and> ((10::int) = 0 \<longrightarrow> ws = [])
      \<and> (\<forall>w\<in>set ws. 1 \<le> page_start w \<and> page_start w \<le> page_end w \<and> page_end w \<le> 10)
      \<and> (\<forall>k. Suc k < length ws \<longrightarrow>
             page_start (ws ! k) < page_start (ws ! Suc k)
           \<and> page_start (ws ! Suc k) \<le> page_end (ws ! k) + 1
           \<and> page_end (ws ! k) < page_end (ws ! Suc k)
           \<and> card ({page_start (ws ! k)..page_end (ws ! k)} \<inter>
                     {page_start (ws ! Suc k)..page_end (ws ! Suc k)}) = nat 1)"
    by (rule make_chunks_windows) simp_all
  from e h show ?thesis by (rule conjI)
qed


section \<open>Decimal numerals print injectively\<close>

lemma of_char_digit_char: "d < 10 \<Longrightarrow> of_char (digit_char d) = (48::nat) + d"
  by (simp add: digit_char_def)

lemma nat_of_digits_snoc:
  "nat_of_digits (s @ [c]) = 10 * nat_of_digits s + (of_char c - 48)"
  by (simp add: nat_of_digits_def)

lemma nat_of_digits_str_nat: "nat_of_digits (str_nat n) = n"
proof (induction n rule: str_nat.induct)
  case (1 n)
  show ?case
  proof (cases "n < 10")
    case True
    then show ?thesis
      by (subst str_nat.simps) (simp add: nat_of_digits_def of_char_digit_char)
  next
    case False
    with 1 have "nat_of_digits (str_nat (n div 10)) = n div 10" by simp
    with False show ?thesis
      by (subst str_nat.simps) (simp add: nat_of_digits_snoc of_char_digit_char)
  qed
qed

lemma str_nat_inj: "str_nat a = str_nat b \<Longrightarrow> a = b"
  by (metis nat_of_digits_str_nat)

lemma nat_of_digits_zeros:
  "nat_of_digits (replicate k (CHR ''0'') @ s) = nat_of_digits s"
proof -
  have "foldl (\<lambda>a c. 10 * a + (of_char c - 48)) (0::nat) (replicate k (CHR ''0'')) = 0"
    by (induction k) simp_all
  then show ?thesis by (simp add: nat_of_digits_def)
qed

lemma fmt_0d_inj: "fmt_0d w a = fmt_0d w b \<Longrightarrow> a = b"
  by (metis fmt_0d_def zfill_def nat_of_digits_zeros nat_of_digits_str_nat)

lemma str_int_nonneg: "0 \<le> k \<Longrightarrow> str_int k = str_nat (nat k)"
  by (simp add: str_int_def)

lemma str_int_inj_nonneg: "0 \<le> a \<Longrightarrow> 0 \<le> b \<Longrightarrow> str_int a = str_int b \<Longrightarrow> a = b"
  using str_nat_inj by (fastforce simp: str_int_nonneg)

lemma str_int_small: "str_int 1 = ''1''" "str_int 2 = ''2''" "str_int 4 = ''4''"
  by code_simp+

section \<open>Shuffling permutes\<close>

lemma randbelow_less: "0 < n \<Longrightarrow> randbelow n r = (j, r') \<Longrightarrow> j < n"
  by (auto simp: randbelow_def split: list.splits)

lemma shuffle_loop_mset:
  "i < length xs \<Longrightarrow> shuffle_loop i xs r = (ys, r') \<Longrightarrow> mset ys = mset xs"
proof (induction i arbitrary: xs r)
  case 0
  then show ?case by simp
next
  case (Suc i)
  obtain j r1 where rb: "randbelow (Suc i + 1) r = (j, r1)" by (cases "randbelow (Suc i + 1) r")
  then have j: "j < Suc i + 1" using randbelow_less by blast
  let ?xs = "xs[Suc i := xs ! j, j := xs ! Suc i]"
  from Suc.prems rb have sl: "shuffle_loop i ?xs r1 = (ys, r')" by simp
  have "i < length ?xs" using Suc.prems(1) by simp
  from Suc.IH[OF this sl] have "mset ys = mset ?xs" .
  also have "mset ?xs = mset xs" using Suc.prems(1) j by (intro mset_swap) auto
  finally show ?case .
qed

lemma shuffle_mset: "shuffle xs r = (ys, r') \<Longrightarrow> mset ys = mset xs"
proof (cases xs)
  case Nil
  assume "shuffle xs r = (ys, r')"
  with Nil show ?thesis by (simp add: shuffle_def)
next
  case (Cons a as)
  assume "shuffle xs r = (ys, r')"
  then show ?thesis unfolding shuffle_def using Cons by (intro shuffle_loop_mset[of "length xs - 1" xs r ys r']) auto
qed

section \<open>Validation lemmas\<close>

lemma validate_question_Inr:
  "validate_question qt n q = Inr q' \<Longrightarrow> q' = setdefault_explanation q"
  by (auto simp: validate_question_def Let_def split: option.splits if_splits)

lemma validate_question_Inl:
  "validate_question qt n q = Inl e \<Longrightarrow> \<exists>m. e = ValueError m"
  by (auto simp: validate_question_def Let_def split: option.splits if_splits)

lemma validate_question_choices:
  "validate_question qt n q = Inr q' \<Longrightarrow> \<exists>cs. choices q = Some cs"
  by (auto simp: validate_question_def Let_def split: option.splits if_splits)

lemma setdefault_explanation_fields [simp]:
  "q_id (setdefault_explanation q) = q_id q"
  "question_type (setdefault_explanation q) = question_type q"
  "stem (setdefault_explanation q) = stem q"
  "choices (setdefault_explanation q) = choices q"
  "correct_choice_ids (setdefault_explanation q) = correct_choice_ids q"
  "q_chunk_id (setdefault_explanation q) = q_chunk_id q"
  by (simp_all add: setdefault_explanation_def split: option.splits)

lemma setdefault_explanation_q_id_update:
  "setdefault_explanation (setdefault_explanation q\<lparr>q_id := x\<rparr>) = setdefault_explanation q\<lparr>q_id := x\<rparr>"
  by (simp add: setdefault_explanation_def split: option.splits)

lemma validate_question_again:
  assumes "validate_question qt n q = Inr q'"
  shows "validate_question qt n (q'\<lparr>q_id := x\<rparr>) = Inr (q'\<lparr>q_id := x\<rparr>)"
proof -
  have q': "q' = setdefault_explanation q" using assms by (rule validate_question_Inr)
  show ?thesis using assms unfolding q'
    by (auto simp: validate_question_def Let_def setdefault_explanation_q_id_update
        split: option.splits if_splits)
qed

lemma validate_all_Inr:
  "validate_all qt n qs = Inr qs' \<Longrightarrow> qs' = map setdefault_explanation qs"
  by (induction qs arbitrary: qs') (auto split: sum.splits dest: validate_question_Inr)

lemma validate_all_each:
  "validate_all qt n qs = Inr qs' \<Longrightarrow> q \<in> set qs \<Longrightarrow> \<exists>q'. validate_question qt n q = Inr q'"
  by (induction qs arbitrary: qs') (auto split: sum.splits)

lemma validate_all_Inl:
  "q \<in> set qs \<Longrightarrow> validate_question qt n q = Inl e \<Longrightarrow> \<exists>m. validate_all qt n qs = Inl (ValueError m)"
proof (induction qs)
  case Nil
  then show ?case by simp
next
  case (Cons a qs)
  show ?case
  proof (cases "validate_question qt n a")
    case (Inl e')
    then show ?thesis using validate_question_Inl[OF Inl] by auto
  next
    case (Inr a')
    with Cons have "q \<in> set qs" by auto
    from Cons.IH[OF this Cons.prems(2)] Inr show ?thesis by auto
  qed
qed

lemma validate_all_assign_ids:
  "validate_all qt n qs = Inr qs' \<Longrightarrow> validate_all qt n (assign_ids i qs') = Inr (assign_ids i qs')"
proof (induction qs arbitrary: qs' i)
  case Nil
  then show ?case by simp
next
  case (Cons a qs)
  then obtain a' rest where a: "validate_question qt n a = Inr a'"
    and r: "validate_all qt n qs = Inr rest" and e: "qs' = a' # rest"
    by (auto split: sum.splits)
  from Cons.IH[OF r] validate_question_again[OF a] show ?case unfolding e by simp
qed

section \<open>Option shuffling and id assignment lemmas\<close>

lemma shuffle_options_total:
  "\<forall>q\<in>set qs. choices q \<noteq> None \<Longrightarrow> \<exists>qs' r'. shuffle_options qs r = Inr (qs', r')"
proof (induction qs arbitrary: r)
  case Nil
  then show ?case by simp
next
  case (Cons q qs)
  then obtain cs where cs: "choices q = Some cs" by auto
  obtain cs' r1 where sh: "shuffle cs r = (cs', r1)" by (cases "shuffle cs r")
  from Cons obtain qs' r2 where "shuffle_options qs r1 = Inr (qs', r2)" by fastforce
  with cs sh show ?case by simp
qed

lemma shuffle_options_rel:
  "shuffle_options qs r = Inr (qs', r') \<Longrightarrow>
     list_all2 (\<lambda>q q'. \<exists>cs cs'. choices q = Some cs \<and> mset cs' = mset cs \<and> q' = q\<lparr>choices := Some cs'\<rparr>) qs qs'"
proof (induction qs arbitrary: r qs' r')
  case Nil
  then show ?case by simp
next
  case (Cons q qs)
  from Cons.prems obtain cs where cs: "choices q = Some cs" by (auto split: option.splits)
  obtain cs' r1 where sh: "shuffle cs r = (cs', r1)" by (cases "shuffle cs r")
  from Cons.prems cs sh obtain rest where rest: "shuffle_options qs r1 = Inr (rest, r')"
    and e: "qs' = q\<lparr>choices := Some cs'\<rparr> # rest"
    by (auto split: sum.splits)
  from Cons.IH[OF rest] shuffle_mset[OF sh] cs show ?case unfolding e by auto
qed

lemma assign_ids_length [simp]: "length (assign_ids i qs) = length qs"
  by (induction qs arbitrary: i) simp_all

lemma assign_ids_q_id:
  "map q_id (assign_ids i qs) = map (\<lambda>k. Some (''q_'' @ fmt_0d 4 k)) [i..<i + length qs]"
proof (induction qs arbitrary: i)
  case Nil
  then show ?case by simp
next
  case (Cons q qs)
  have "[i..<i + length (q # qs)] = i # [Suc i..<Suc i + length qs]"
    by (simp add: upt_rec)
  with Cons show ?case by simp
qed

lemma assign_ids_rel:
  "list_all2 (\<lambda>q q'. \<exists>x. q' = q\<lparr>q_id := x\<rparr>) qs (assign_ids i qs)"
  by (induction qs arbitrary: i) auto

lemma assign_ids_idem: "assign_ids i (assign_ids i qs) = assign_ids i qs"
  by (induction qs arbitrary: i) simp_all

lemma q_ids_distinct: "distinct (map (\<lambda>k. Some (''q_'' @ fmt_0d 4 k)) [i..<j])"
  by (auto simp: distinct_map inj_on_def dest: fmt_0d_inj)

section \<open>The stages of postprocessing, composed\<close>

lemma postprocess_after_validation:
  assumes v: "validate_all qt n qs = Inr qs1"
  shows "\<exists>qs3 r'. postprocess_questions qs qt n rq ro r = Inr (assign_ids 1 qs3, r')
           \<and> length qs3 = length qs
           \<and> mset (map (\<lambda>q. (stem q, q_chunk_id q, question_type q, correct_choice_ids q,
                               map_option mset (choices q))) qs3)
             = mset (map (\<lambda>q. (stem q, q_chunk_id q, question_type q, correct_choice_ids q,
                               map_option mset (choices q))) qs)
           \<and> (\<not> rq \<longrightarrow> map (\<lambda>q. (stem q, q_chunk_id q, question_type q, correct_choice_ids q,
                               map_option mset (choices q))) qs3
                     = map (\<lambda>q. (stem q, q_chunk_id q, question_type q, correct_choice_ids q,
                               map_option mset (choices q))) qs)
           \<and> (\<not> rq \<and> \<not> ro \<longrightarrow> qs3 = qs1 \<and> r' = r)"
proof -
  let ?core = "\<lambda>q. (stem q, q_chunk_id q, question_type q, correct_choice_ids q,
                               map_option mset (choices q))"
  have qs1: "qs1 = map setdefault_explanation qs" using v by (rule validate_all_Inr)
  have c1: "map ?core qs1 = map ?core qs" unfolding qs1 by simp
  have ch1: "\<forall>q\<in>set qs1. choices q \<noteq> None"
    unfolding qs1 using validate_all_each[OF v] validate_question_choices by fastforce
  obtain qs2 r2 where s2: "(if rq then shuffle qs1 r else (qs1, r)) = (qs2, r2)"
    by (cases "if rq then shuffle qs1 r else (qs1, r)")
  have m2: "mset qs2 = mset qs1" using s2 shuffle_mset by (auto split: if_splits)
  have n2: "\<not> rq \<longrightarrow> qs2 = qs1 \<and> r2 = r" using s2 by auto
  have ch2: "\<forall>q\<in>set qs2. choices q \<noteq> None" using ch1 m2 by (metis set_mset_mset)
  obtain qs3 r3 where s3: "(if ro then shuffle_options qs2 r2 else Inr (qs2, r2)) = Inr (qs3, r3)"
    using shuffle_options_total[OF ch2, of r2] by (cases ro) auto
  have c3: "map ?core qs3 = map ?core qs2"
  proof (cases ro)
    case True
    with s3 have "shuffle_options qs2 r2 = Inr (qs3, r3)" by simp
    from shuffle_options_rel[OF this] have
      "list_all2 (\<lambda>q q'. ?core q' = ?core q) qs2 qs3"
      by (rule list_all2_mono) auto
    then show ?thesis by (induction rule: list_all2_induct) auto
  next
    case False
    with s3 show ?thesis by simp
  qed
  have n3: "\<not> ro \<longrightarrow> qs3 = qs2 \<and> r3 = r2" using s3 by auto
  have res: "postprocess_questions qs qt n rq ro r = Inr (assign_ids 1 qs3, r3)"
    unfolding postprocess_questions_def using v s2 s3 by simp
  have "length qs3 = length qs2" using c3 by (rule map_eq_imp_length_eq)
  moreover have "length qs2 = length qs1" using m2 by (rule mset_eq_length)
  ultimately have len: "length qs3 = length qs" unfolding qs1 by simp
  have "mset (map ?core qs3) = mset (map ?core qs2)" by (simp only: c3)
  also have "\<dots> = image_mset ?core (mset qs2)" by (rule mset_map)
  also have "\<dots> = image_mset ?core (mset qs1)" by (simp only: m2)
  also have "\<dots> = mset (map ?core qs1)" by (rule mset_map[symmetric])
  also have "\<dots> = mset (map ?core qs)" by (simp only: c1)
  finally have ms: "mset (map ?core qs3) = mset (map ?core qs)" .
  have nr: "\<not> rq \<longrightarrow> map ?core qs3 = map ?core qs" using c3 n2 c1 by auto
  have nn: "\<not> rq \<and> \<not> ro \<longrightarrow> qs3 = qs1 \<and> r3 = r" using n2 n3 by simp
  show ?thesis
    by (rule exI[of _ qs3], rule exI[of _ r3]) (intro conjI res len ms nr nn)
qed

lemma assign_ids_map:
  "(\<And>q x. f (q\<lparr>q_id := x\<rparr>) = f q) \<Longrightarrow> map f (assign_ids i qs) = map f qs"
  by (induction qs arbitrary: i) simp_all


lemma validate_question_mcq_fails:
  assumes "question_type q = Some ''MCQ''" and "correct_choice_ids q = Some correct"
    and "length correct \<noteq> 1"
  shows "\<exists>e. validate_question qtype n q = Inl e"
proof (cases "qtype = ''MCQ''")
  case True
  with assms show ?thesis
    by (simp add: validate_question_def Let_def split: option.splits)
next
  case False
  with assms show ?thesis
    by (simp add: validate_question_def Let_def split: option.splits)
qed

lemma postprocess_Inr_validated:
  "postprocess_questions qs qt n rq ro r = Inr res \<Longrightarrow> \<exists>qs1. validate_all qt n qs = Inr qs1"
  by (cases "validate_all qt n qs") (simp_all add: postprocess_questions_def)

section \<open>The postprocessor on objects: lemmas\<close>

lemma deref_q_id [simp]: "q_id (deref h r) = d_id (dicts h r)"
  by (simp add: deref_def Let_def)

lemma deref_choices: "choices (deref h r) = map_option (lists h) (d_choices (dicts h r))"
  by (simp add: deref_def Let_def)

lemma setdefault_explanation_dict_choices [simp]:
  "d_choices (setdefault_explanation_dict d) = d_choices d"
  by (simp add: setdefault_explanation_dict_def split: option.splits)

lemma validate_refs_choices:
  "validate_refs qt n h rs = Inr h1 \<Longrightarrow>
     (\<forall>r. d_choices (dicts h1 r) = d_choices (dicts h r))
     \<and> (\<forall>r\<in>set rs. d_choices (dicts h r) \<noteq> None)"
proof (induction rs arbitrary: h)
  case Nil
  then show ?case by simp
next
  case (Cons r rs)
  let ?h = "h\<lparr>dicts := (dicts h)(r := setdefault_explanation_dict (dicts h r))\<rparr>"
  from Cons.prems obtain q' where v: "validate_question qt n (deref h r) = Inr q'"
    and rest: "validate_refs qt n ?h rs = Inr h1"
    by (auto split: sum.splits)
  from validate_question_choices[OF v] have c: "d_choices (dicts h r) \<noteq> None"
    by (auto simp: deref_choices)
  have same: "\<And>x. d_choices (dicts ?h x) = d_choices (dicts h x)" by simp
  from Cons.IH[OF rest] have a: "\<forall>x. d_choices (dicts h1 x) = d_choices (dicts ?h x)"
    and b: "\<forall>x\<in>set rs. d_choices (dicts ?h x) \<noteq> None" by simp_all
  from a same have a': "\<forall>x. d_choices (dicts h1 x) = d_choices (dicts h x)" by simp
  from b same have b': "\<forall>x\<in>set rs. d_choices (dicts h x) \<noteq> None" by simp
  from a' b' c show ?case by simp
qed

lemma shuffle_options_refs_total:
  "\<forall>r\<in>set rs. d_choices (dicts h r) \<noteq> None \<Longrightarrow>
     \<exists>h' g'. shuffle_options_refs h rs g = Inr (h', g') \<and> dicts h' = dicts h"
proof (induction rs arbitrary: h g)
  case Nil
  then show ?case by simp
next
  case (Cons r rs)
  then obtain l where l: "d_choices (dicts h r) = Some l" by auto
  obtain cs' g1 where sh: "shuffle (lists h l) g = (cs', g1)" by (cases "shuffle (lists h l) g")
  let ?h = "h\<lparr>lists := (lists h)(l := cs')\<rparr>"
  have "\<forall>x\<in>set rs. d_choices (dicts ?h x) \<noteq> None" using Cons.prems by simp
  from Cons.IH[OF this, of g1] obtain h' g' where
    "shuffle_options_refs ?h rs g1 = Inr (h', g')" "dicts h' = dicts ?h" by blast
  with l sh show ?case by simp
qed

lemma assign_ids_refs_other:
  "r \<notin> set rs \<Longrightarrow> dicts (assign_ids_refs i h rs) r = dicts h r"
  by (induction rs arbitrary: i h) auto

lemma assign_ids_refs_ids:
  "distinct rs \<Longrightarrow>
     map (\<lambda>r. d_id (dicts (assign_ids_refs i h rs) r)) rs
       = map (\<lambda>k. Some (''q_'' @ fmt_0d 4 k)) [i..<i + length rs]"
proof (induction rs arbitrary: i h)
  case Nil
  then show ?case by simp
next
  case (Cons r rs)
  let ?h = "h\<lparr>dicts := (dicts h)(r := (dicts h r)\<lparr>d_id := Some (''q_'' @ fmt_0d 4 i)\<rparr>)\<rparr>"
  from Cons.prems have r: "r \<notin> set rs" and d: "distinct rs" by simp_all
  have hd: "d_id (dicts (assign_ids_refs (Suc i) ?h rs) r) = Some (''q_'' @ fmt_0d 4 i)"
    using assign_ids_refs_other[OF r, of "Suc i" ?h] by simp
  have up: "[i..<i + length (r # rs)] = i # [Suc i..<Suc i + length rs]"
    by (simp add: upt_rec)
  show ?case unfolding up using Cons.IH[OF d, of "Suc i" ?h] hd by simp
qed

lemma d_id_update_same: "d_id d = x \<Longrightarrow> d\<lparr>d_id := x\<rparr> = d"
  by (cases d) simp

lemma assign_ids_refs_fix:
  "map (\<lambda>r. d_id (dicts h r)) rs = map (\<lambda>k. Some (''q_'' @ fmt_0d 4 k)) [i..<i + length rs]
     \<Longrightarrow> assign_ids_refs i h rs = h"
proof (induction rs arbitrary: i)
  case Nil
  then show ?case by simp
next
  case (Cons r rs)
  have up: "[i..<i + length (r # rs)] = i # [Suc i..<Suc i + length rs]"
    by (simp add: upt_rec)
  from Cons.prems have a: "d_id (dicts h r) = Some (''q_'' @ fmt_0d 4 i)"
    and b: "map (\<lambda>r. d_id (dicts h r)) rs
              = map (\<lambda>k. Some (''q_'' @ fmt_0d 4 k)) [Suc i..<Suc i + length rs]"
    unfolding up by simp_all
  have "(dicts h r)\<lparr>d_id := Some (''q_'' @ fmt_0d 4 i)\<rparr> = dicts h r"
    using a by (rule d_id_update_same)
  then have "h\<lparr>dicts := (dicts h)(r := (dicts h r)\<lparr>d_id := Some (''q_'' @ fmt_0d 4 i)\<rparr>)\<rparr> = h"
    by simp
  then show ?case using Cons.IH[OF b] by simp
qed


text \<open>
  Stage by stage, the function on objects computes what the function on values computes
  from the contents of the list, when no dictionary stands at two positions and no choice
  list is held by two of the dictionaries.
\<close>

lemma deref_cong:
  "dicts h' r = dicts h r \<Longrightarrow>
   (\<And>l. d_choices (dicts h r) = Some l \<Longrightarrow> lists h' l = lists h l) \<Longrightarrow>
   deref h' r = deref h r"
  by (cases "d_choices (dicts h r)") (simp_all add: deref_def Let_def)

lemma deref_setdefault:
  "deref (h\<lparr>dicts := (dicts h)(r := setdefault_explanation_dict (dicts h r))\<rparr>) r
     = setdefault_explanation (deref h r)"
  by (simp add: deref_def Let_def setdefault_explanation_dict_def setdefault_explanation_def
      split: option.splits)

lemma validate_refs_frame:
  "validate_refs qt n h rs = Inr h1 \<Longrightarrow>
     lists h1 = lists h \<and> (\<forall>x. x \<notin> set rs \<longrightarrow> dicts h1 x = dicts h x)"
proof (induction rs arbitrary: h)
  case Nil
  then show ?case by simp
next
  case (Cons r rs)
  let ?h = "h\<lparr>dicts := (dicts h)(r := setdefault_explanation_dict (dicts h r))\<rparr>"
  from Cons.prems have rest: "validate_refs qt n ?h rs = Inr h1"
    by (auto split: sum.splits)
  from Cons.IH[OF rest] show ?case by simp
qed

lemma validate_refs_values:
  "distinct rs \<Longrightarrow>
     (case validate_refs qt n h rs of Inl e \<Rightarrow> Inl e | Inr h1 \<Rightarrow> Inr (map (deref h1) rs))
       = validate_all qt n (map (deref h) rs)"
proof (induction rs arbitrary: h)
  case Nil
  then show ?case by simp
next
  case (Cons r rs)
  from Cons.prems have r: "r \<notin> set rs" and d: "distinct rs" by simp_all
  let ?h = "h\<lparr>dicts := (dicts h)(r := setdefault_explanation_dict (dicts h r))\<rparr>"
  show ?case
  proof (cases "validate_question qt n (deref h r)")
    case (Inl e)
    then show ?thesis by simp
  next
    case (Inr q')
    then have q': "q' = setdefault_explanation (deref h r)" by (rule validate_question_Inr)
    have same: "map (deref ?h) rs = map (deref h) rs"
    proof (rule map_cong[OF refl])
      fix x assume "x \<in> set rs"
      with r have "x \<noteq> r" by auto
      then show "deref ?h x = deref h x" by (intro deref_cong) simp_all
    qed
    note IH = Cons.IH[OF d, of ?h, unfolded same]
    show ?thesis
    proof (cases "validate_refs qt n ?h rs")
      case (Inl e)
      with IH have "validate_all qt n (map (deref h) rs) = Inl e" by simp
      with Inl Inr show ?thesis by simp
    next
      case h1: (Inr h1)
      from validate_refs_frame[OF h1] r have "lists h1 = lists ?h" "dicts h1 r = dicts ?h r"
        by simp_all
      then have "deref h1 r = deref ?h r" by (intro deref_cong) simp_all
      then have hd: "deref h1 r = q'" unfolding q' by (simp only: deref_setdefault)
      from IH h1 have "validate_all qt n (map (deref h) rs) = Inr (map (deref h1) rs)" by simp
      with Inr h1 hd show ?thesis by simp
    qed
  qed
qed

lemma shuffle_loop_map:
  "i < length xs \<or> xs = [] \<and> i = 0 \<Longrightarrow>
     shuffle_loop i (map f xs) g = (case shuffle_loop i xs g of (ys, g') \<Rightarrow> (map f ys, g'))"
proof (induction i arbitrary: xs g)
  case 0
  then show ?case by simp
next
  case (Suc i)
  then have len: "Suc i < length xs" by auto
  obtain j g1 where rb: "randbelow (Suc i + 1) g = (j, g1)" by (cases "randbelow (Suc i + 1) g")
  then have "j < Suc i + 1" using randbelow_less by blast
  with len have j: "j < length xs" by simp
  let ?xs = "xs[Suc i := xs ! j, j := xs ! Suc i]"
  have "(map f xs)[Suc i := map f xs ! j, j := map f xs ! Suc i] = map f ?xs"
    using len j by (simp add: map_update)
  moreover have "i < length ?xs \<or> ?xs = [] \<and> i = 0" using len by simp
  ultimately show ?case using rb Suc.IH[of ?xs g1] by simp
qed

lemma shuffle_map:
  "shuffle (map f xs) g = (case shuffle xs g of (ys, g') \<Rightarrow> (map f ys, g'))"
  unfolding shuffle_def using shuffle_loop_map[of "length xs - 1" xs f g]
  by (cases xs) simp_all

lemma shuffle_options_refs_frame:
  "shuffle_options_refs h rs g = Inr (h', g') \<Longrightarrow>
     dicts h' = dicts h
     \<and> (\<forall>l. (\<forall>r\<in>set rs. d_choices (dicts h r) \<noteq> Some l) \<longrightarrow> lists h' l = lists h l)"
proof (induction rs arbitrary: h g)
  case Nil
  then show ?case by simp
next
  case (Cons r rs)
  from Cons.prems obtain l where l: "d_choices (dicts h r) = Some l"
    by (auto split: option.splits)
  obtain cs' g1 where sh: "shuffle (lists h l) g = (cs', g1)" by (cases "shuffle (lists h l) g")
  let ?h = "h\<lparr>lists := (lists h)(l := cs')\<rparr>"
  from Cons.prems l sh have rest: "shuffle_options_refs ?h rs g1 = Inr (h', g')" by simp
  from Cons.IH[OF rest] have a: "dicts h' = dicts h"
    and b: "\<forall>l'. (\<forall>r\<in>set rs. d_choices (dicts h r) \<noteq> Some l') \<longrightarrow> lists h' l' = lists ?h l'"
    by simp_all
  have "\<forall>l'. (\<forall>x\<in>set (r # rs). d_choices (dicts h x) \<noteq> Some l') \<longrightarrow> lists h' l' = lists h l'"
    using b l by auto
  with a show ?case by simp
qed

lemma shuffle_options_refs_values:
  assumes "distinct rs"
    and "\<forall>r\<in>set rs. \<forall>r'\<in>set rs. r \<noteq> r' \<longrightarrow> d_choices (dicts h r) \<noteq> None \<longrightarrow>
           d_choices (dicts h r) \<noteq> d_choices (dicts h r')"
  shows "(case shuffle_options_refs h rs g of
            Inl e \<Rightarrow> Inl e
          | Inr (h', g') \<Rightarrow> Inr (map (deref h') rs, g'))
         = shuffle_options (map (deref h) rs) g"
  using assms
proof (induction rs arbitrary: h g)
  case Nil
  then show ?case by simp
next
  case (Cons r rs)
  from Cons.prems(1) have r: "r \<notin> set rs" and d: "distinct rs" by simp_all
  show ?case
  proof (cases "d_choices (dicts h r)")
    case None
    then show ?thesis by (simp add: deref_choices)
  next
    case (Some l)
    obtain cs' g1 where sh: "shuffle (lists h l) g = (cs', g1)" by (cases "shuffle (lists h l) g")
    let ?h = "h\<lparr>lists := (lists h)(l := cs')\<rparr>"
    have other: "\<forall>x\<in>set rs. d_choices (dicts h x) \<noteq> Some l"
    proof
      fix x assume x: "x \<in> set rs"
      with r have "r \<noteq> x" by auto
      with Cons.prems(2) x Some show "d_choices (dicts h x) \<noteq> Some l"
        by (metis list.set_intros(1) list.set_intros(2) option.distinct(1))
    qed
    have same: "map (deref ?h) rs = map (deref h) rs"
    proof (rule map_cong[OF refl])
      fix x assume "x \<in> set rs"
      with other have "d_choices (dicts h x) \<noteq> Some l" by simp
      then show "deref ?h x = deref h x" by (intro deref_cong) auto
    qed
    have inj: "\<forall>x\<in>set rs. \<forall>x'\<in>set rs. x \<noteq> x' \<longrightarrow> d_choices (dicts ?h x) \<noteq> None \<longrightarrow>
           d_choices (dicts ?h x) \<noteq> d_choices (dicts ?h x')"
      using Cons.prems(2) by simp
    note IH = Cons.IH[OF d inj, of g1, unfolded same]
    have val: "shuffle_options (map (deref h) (r # rs)) g
        = (case shuffle_options (map (deref h) rs) g1 of
             Inl e \<Rightarrow> Inl e
           | Inr (qs', g'') \<Rightarrow> Inr ((deref h r)\<lparr>choices := Some cs'\<rparr> # qs', g''))"
      using Some sh by (simp add: deref_choices)
    show ?thesis
    proof (cases "shuffle_options_refs ?h rs g1")
      case (Inl e)
      with IH have "shuffle_options (map (deref h) rs) g1 = Inl e" by simp
      with Inl Some sh val show ?thesis by simp
    next
      case (Inr res)
      obtain h' g' where res: "res = (h', g')" by (cases res)
      from Inr res have run: "shuffle_options_refs ?h rs g1 = Inr (h', g')" by simp
      with IH have v: "shuffle_options (map (deref h) rs) g1 = Inr (map (deref h') rs, g')"
        by simp
      from shuffle_options_refs_frame[OF run] other
      have dh: "dicts h' = dicts h" and lh: "lists h' l = cs'" by simp_all
      have "deref h' r = (deref h r)\<lparr>choices := Some cs'\<rparr>"
        using dh lh Some by (simp add: deref_def Let_def)
      with run Some sh val v show ?thesis by simp
    qed
  qed
qed

lemma assign_ids_refs_lists: "lists (assign_ids_refs i h rs) = lists h"
  by (induction rs arbitrary: i h) simp_all

lemma assign_ids_refs_values:
  "distinct rs \<Longrightarrow> map (deref (assign_ids_refs i h rs)) rs = assign_ids i (map (deref h) rs)"
proof (induction rs arbitrary: i h)
  case Nil
  then show ?case by simp
next
  case (Cons r rs)
  from Cons.prems have r: "r \<notin> set rs" and d: "distinct rs" by simp_all
  let ?h = "h\<lparr>dicts := (dicts h)(r := (dicts h r)\<lparr>d_id := Some (''q_'' @ fmt_0d 4 i)\<rparr>)\<rparr>"
  let ?hf = "assign_ids_refs (Suc i) ?h rs"
  have same: "map (deref ?h) rs = map (deref h) rs"
  proof (rule map_cong[OF refl])
    fix x assume "x \<in> set rs"
    with r have "x \<noteq> r" by auto
    then show "deref ?h x = deref h x" by (intro deref_cong) simp_all
  qed
  have "dicts ?hf r = dicts ?h r" using r by (rule assign_ids_refs_other)
  moreover have "lists ?hf = lists h" by (simp add: assign_ids_refs_lists)
  ultimately have hd: "deref ?hf r = (deref h r)\<lparr>q_id := Some (''q_'' @ fmt_0d 4 i)\<rparr>"
    by (simp add: deref_def Let_def)
  have tl: "map (deref ?hf) rs = assign_ids (Suc i) (map (deref h) rs)"
    using Cons.IH[OF d, of "Suc i" ?h] by (simp only: same)
  have "map (deref (assign_ids_refs i h (r # rs))) (r # rs) = deref ?hf r # map (deref ?hf) rs"
    by simp
  also have "\<dots> = (deref h r)\<lparr>q_id := Some (''q_'' @ fmt_0d 4 i)\<rparr>
                     # assign_ids (Suc i) (map (deref h) rs)"
    by (simp only: hd tl)
  also have "\<dots> = assign_ids i (map (deref h) (r # rs))" by simp
  finally show ?case .
qed


lemma postprocess_questions_inplace_values:
  assumes d: "distinct refs"
    and sh: "\<forall>r\<in>set refs. \<forall>r'\<in>set refs. r \<noteq> r' \<longrightarrow> d_choices (dicts h r) \<noteq> None \<longrightarrow>
           d_choices (dicts h r) \<noteq> d_choices (dicts h r')"
  shows "(case postprocess_questions_inplace refs qt n rq ro g h of
            Inl e \<Rightarrow> Inl e
          | Inr (out, h', g') \<Rightarrow> Inr (map (deref h') out, g'))
         = postprocess_questions (map (deref h) refs) qt n rq ro g"
proof (cases "validate_refs qt n h refs")
  case (Inl e)
  with validate_refs_values[OF d, of qt n h]
  have "validate_all qt n (map (deref h) refs) = Inl e" by simp
  with Inl show ?thesis
    by (simp add: postprocess_questions_inplace_def postprocess_questions_def)
next
  case (Inr h1)
  with validate_refs_values[OF d, of qt n h]
  have v: "validate_all qt n (map (deref h) refs) = Inr (map (deref h1) refs)" by simp
  from validate_refs_choices[OF Inr]
  have ch: "\<forall>r. d_choices (dicts h1 r) = d_choices (dicts h r)" by simp
  obtain qs2 g2 where s2: "(if rq then shuffle refs g else (refs, g)) = (qs2, g2)"
    by (cases "if rq then shuffle refs g else (refs, g)")
  have m2: "mset qs2 = mset refs" using s2 shuffle_mset by (auto split: if_splits)
  have d2: "distinct qs2" using m2 d by (metis mset_eq_imp_distinct_iff)
  have set2: "set qs2 = set refs" using m2 by (rule mset_eq_setD)
  have sh2: "\<forall>r\<in>set qs2. \<forall>r'\<in>set qs2. r \<noteq> r' \<longrightarrow> d_choices (dicts h1 r) \<noteq> None \<longrightarrow>
           d_choices (dicts h1 r) \<noteq> d_choices (dicts h1 r')"
    using sh ch set2 by simp
  have s2v: "(if rq then shuffle (map (deref h1) refs) g else (map (deref h1) refs, g))
               = (map (deref h1) qs2, g2)"
    using s2 by (auto simp: shuffle_map split: if_splits)
  have so: "(case (if ro then shuffle_options_refs h1 qs2 g2 else Inr (h1, g2)) of
               Inl e \<Rightarrow> Inl e
             | Inr (h3, g3) \<Rightarrow> Inr (map (deref h3) qs2, g3))
            = (if ro then shuffle_options (map (deref h1) qs2) g2
               else Inr (map (deref h1) qs2, g2))"
    using shuffle_options_refs_values[OF d2 sh2, of g2] by simp
  show ?thesis
  proof (cases "if ro then shuffle_options_refs h1 qs2 g2 else Inr (h1, g2)")
    case (Inl e)
    with so have "(if ro then shuffle_options (map (deref h1) qs2) g2
               else Inr (map (deref h1) qs2, g2)) = Inl e" by simp
    with Inl Inr v s2 s2v show ?thesis
      by (simp add: postprocess_questions_inplace_def postprocess_questions_def)
  next
    case r3: (Inr res)
    obtain h3 g3 where res: "res = (h3, g3)" by (cases res)
    from so r3 res have sv: "(if ro then shuffle_options (map (deref h1) qs2) g2
               else Inr (map (deref h1) qs2, g2)) = Inr (map (deref h3) qs2, g3)" by simp
    have a: "map (deref (assign_ids_refs 1 h3 qs2)) qs2 = assign_ids 1 (map (deref h3) qs2)"
      using d2 by (rule assign_ids_refs_values)
    from Inr s2 r3 res have L: "postprocess_questions_inplace refs qt n rq ro g h
        = Inr (qs2, assign_ids_refs 1 h3 qs2, g3)"
      by (simp add: postprocess_questions_inplace_def)
    from v s2v sv have R: "postprocess_questions (map (deref h) refs) qt n rq ro g
        = Inr (assign_ids 1 (map (deref h3) qs2), g3)"
      by (simp add: postprocess_questions_def)
    show ?thesis unfolding L R by (simp only: a sum.case prod.case)
  qed
qed

section \<open>Postprocessor claims\<close>

text \<open>
  Claim C2, as the code has it.  Step D writes the id to each dictionary in place.  For a
  list of pairwise distinct question objects that passes validation,
  \<open>postprocess_questions\<close> returns, for all values of the two randomization flags and every
  state of the random source, the same objects (permuted), and the ids read from the
  returned list are, in final list order, \<open>q_\<close> followed by the 4-digit zero-padded numbers
  1, 2, ..., N: no gap, no repetition.  Assigning the ids again changes nothing: the id
  assignment is the last mutation and the ids are those of the final order.
\<close>

theorem postprocess_questions_inplace_ids:
  assumes "distinct questions"
    and "validate_refs qtype n h questions = Inr h1"
  shows "\<exists>out h' g'.
           postprocess_questions_inplace questions qtype n randomize_questions
             randomize_options g h = Inr (out, h', g')
         \<and> mset out = mset questions
         \<and> map (\<lambda>r. q_id (deref h' r)) out
             = map (\<lambda>i. Some (''q_'' @ fmt_0d 4 i)) [1..<Suc (length questions)]
         \<and> distinct (map (\<lambda>r. q_id (deref h' r)) out)
         \<and> assign_ids_refs 1 h' out = h'"
proof -
  from validate_refs_choices[OF assms(2)]
  have ch1: "\<forall>r\<in>set questions. d_choices (dicts h1 r) \<noteq> None" by simp
  obtain qs2 g2 where s2:
    "(if randomize_questions then shuffle questions g else (questions, g)) = (qs2, g2)"
    by (cases "if randomize_questions then shuffle questions g else (questions, g)")
  have m2: "mset qs2 = mset questions" using s2 shuffle_mset by (auto split: if_splits)
  have d2: "distinct qs2" using m2 assms(1) by (metis mset_eq_imp_distinct_iff)
  have l2: "length qs2 = length questions" using m2 by (rule mset_eq_length)
  have ch2: "\<forall>r\<in>set qs2. d_choices (dicts h1 r) \<noteq> None"
    using ch1 m2 by (metis mset_eq_setD)
  obtain h3 g3 where s3:
    "(if randomize_options then shuffle_options_refs h1 qs2 g2 else Inr (h1, g2)) = Inr (h3, g3)"
    using shuffle_options_refs_total[OF ch2, of g2] by (cases randomize_options) auto
  let ?h' = "assign_ids_refs 1 h3 qs2"
  have res: "postprocess_questions_inplace questions qtype n randomize_questions
             randomize_options g h = Inr (qs2, ?h', g3)"
    unfolding postprocess_questions_inplace_def using assms(2) s2 s3 by simp
  have ids: "map (\<lambda>r. q_id (deref ?h' r)) qs2
      = map (\<lambda>i. Some (''q_'' @ fmt_0d 4 i)) [1..<Suc (length questions)]"
    using assign_ids_refs_ids[OF d2, of 1 h3] l2 by simp
  have di: "distinct (map (\<lambda>r. q_id (deref ?h' r)) qs2)"
    unfolding ids by (rule q_ids_distinct)
  have "map (\<lambda>r. d_id (dicts ?h' r)) qs2
      = map (\<lambda>k. Some (''q_'' @ fmt_0d 4 k)) [1..<1 + length qs2]"
    using ids l2 by simp
  then have fx: "assign_ids_refs 1 ?h' qs2 = ?h'" by (rule assign_ids_refs_fix)
  show ?thesis
    by (rule exI[of _ qs2], rule exI[of _ ?h'], rule exI[of _ g3])
       (intro conjI res m2 ids di fx)
qed

theorem postprocess_questions_inplace_ids_witness:
  "returned_ids (postprocess_questions_inplace [0, 1] ''MCQ'' 2 True True [0, 1, 0, 1] sample_heap)
     = [Some ''q_0001'', Some ''q_0002'']"
proof -
  let ?run = "postprocess_questions_inplace [0, 1] ''MCQ'' 2 True True [0, 1, 0, 1] sample_heap"
  have d: "distinct [0::nat, 1]" by simp
  have "\<not> isl (validate_refs ''MCQ'' 2 sample_heap [0, 1])" by code_simp
  then obtain h1 where v: "validate_refs ''MCQ'' 2 sample_heap [0, 1] = Inr h1"
    by (cases "validate_refs ''MCQ'' 2 sample_heap [0, 1]") simp_all
  have e: "map (\<lambda>i. Some (''q_'' @ fmt_0d 4 i)) [1..<Suc (length [0::nat, 1])]
             = [Some ''q_0001'', Some ''q_0002'']"
    by code_simp
  have "\<exists>out h' g'. ?run = Inr (out, h', g')
         \<and> mset out = mset [0, 1]
         \<and> map (\<lambda>r. q_id (deref h' r)) out
             = map (\<lambda>i. Some (''q_'' @ fmt_0d 4 i)) [1..<Suc (length [0::nat, 1])]
         \<and> distinct (map (\<lambda>r. q_id (deref h' r)) out)
         \<and> assign_ids_refs 1 h' out = h'"
    by (rule postprocess_questions_inplace_ids[OF d v])
  then obtain out h' g' where r: "?run = Inr (out, h', g')"
    and i: "map (\<lambda>r. q_id (deref h' r)) out
             = map (\<lambda>i. Some (''q_'' @ fmt_0d 4 i)) [1..<Suc (length [0::nat, 1])]"
    by (elim exE conjE)
  have "returned_ids ?run = map (\<lambda>r. q_id (deref h' r)) out"
    unfolding r by (simp add: returned_ids_def)
  also note i
  also note e
  finally show ?thesis .
qed

text \<open>
  As stated, for every list that passes validation, the claim fails: a list may hold the
  same dictionary at two positions, validation does not refuse it, and both positions then
  read the id written last.
\<close>

theorem repeated_object_repeats_id:
  "returned_ids (postprocess_questions_inplace [0, 0] ''MCQ'' 2 False False [] sample_heap)
     = [Some ''q_0002'', Some ''q_0002'']"
  by code_simp


text \<open>
  Claim C3.  Whenever some input question has \<open>question_type\<close> MCQ and a
  \<open>correct_choice_ids\<close> list whose length is not 1, \<open>postprocess_questions\<close> raises
  \<^verbatim>\<open>ValueError\<close>, whatever the configured type, the flags and the random source: no list is
  returned, so nothing is coerced or dropped.
\<close>

theorem postprocess_questions_mcq_one_correct:
  assumes "q \<in> set questions" and "question_type q = Some ''MCQ''"
    and "correct_choice_ids q = Some correct" and "length correct \<noteq> 1"
  shows "\<exists>msg. postprocess_questions questions qtype n randomize_questions randomize_options r
           = Inl (ValueError msg)"
proof -
  from validate_question_mcq_fails[OF assms(2-4)] obtain e
    where "validate_question qtype n q = Inl e" by blast
  from validate_all_Inl[OF assms(1) this] obtain m
    where "validate_all qtype n questions = Inl (ValueError m)" by blast
  then show ?thesis by (simp add: postprocess_questions_def)
qed

theorem postprocess_questions_mcq_one_correct_witness:
  "sample_question ''MCQ'' ''b'' [''c1'', ''c2'']
      \<in> set [sample_question ''MCQ'' ''a'' [''c1''], sample_question ''MCQ'' ''b'' [''c1'', ''c2'']]
   \<and> question_type (sample_question ''MCQ'' ''b'' [''c1'', ''c2'']) = Some ''MCQ''
   \<and> correct_choice_ids (sample_question ''MCQ'' ''b'' [''c1'', ''c2'']) = Some [''c1'', ''c2'']
   \<and> length [''c1'', ''c2''] \<noteq> 1
   \<and> (\<exists>msg. postprocess_questions
          [sample_question ''MCQ'' ''a'' [''c1''], sample_question ''MCQ'' ''b'' [''c1'', ''c2'']]
          ''MCQ'' 2 False False [] = Inl (ValueError msg))"
proof -
  let ?q = "sample_question ''MCQ'' ''b'' [''c1'', ''c2'']"
  let ?qs = "[sample_question ''MCQ'' ''a'' [''c1''], ?q]"
  have a: "?q \<in> set ?qs" by simp
  have b: "question_type ?q = Some ''MCQ''" by (simp add: sample_question_def)
  have c: "correct_choice_ids ?q = Some [''c1'', ''c2'']" by (simp add: sample_question_def)
  have d: "length [''c1'', ''c2''] \<noteq> 1" by simp
  have e: "\<exists>msg. postprocess_questions ?qs ''MCQ'' 2 False False [] = Inl (ValueError msg)"
    by (rule postprocess_questions_mcq_one_correct[OF a b c d])
  show ?thesis by (intro conjI a b c d e)
qed

text \<open>
  Claim C4.  Whenever \<open>postprocess_questions\<close> returns, the returned questions are the
  input questions up to order: each keeps its stem, chunk id, type and its
  \<open>correct_choice_ids\<close> list unchanged, together with the same choices up to their order.
  This holds for all values of the flags; without question shuffling the
  \<open>correct_choice_ids\<close> lists are equal position by position.
\<close>

theorem postprocess_questions_correct_ids:
  assumes "postprocess_questions questions qtype n randomize_questions randomize_options r
             = Inr (out, r')"
  shows "mset (map (\<lambda>q. (stem q, q_chunk_id q, question_type q, correct_choice_ids q,
                          map_option mset (choices q))) out)
         = mset (map (\<lambda>q. (stem q, q_chunk_id q, question_type q, correct_choice_ids q,
                          map_option mset (choices q))) questions)
       \<and> (\<not> randomize_questions \<longrightarrow>
            map correct_choice_ids out = map correct_choice_ids questions)"
proof -
  let ?core = "\<lambda>q. (stem q, q_chunk_id q, question_type q, correct_choice_ids q,
                          map_option mset (choices q))"
  from postprocess_Inr_validated[OF assms] obtain qs1
    where v: "validate_all qtype n questions = Inr qs1" by blast
  from postprocess_after_validation[OF v, of randomize_questions randomize_options r] assms
  obtain qs3 where out: "out = assign_ids 1 qs3"
    and ms: "mset (map ?core qs3) = mset (map ?core questions)"
    and nr: "\<not> randomize_questions \<longrightarrow> map ?core qs3 = map ?core questions"
    by auto
  have co: "map ?core out = map ?core qs3" unfolding out by (rule assign_ids_map) simp
  have a: "mset (map ?core out) = mset (map ?core questions)" by (simp only: co ms)
  have b: "\<not> randomize_questions \<longrightarrow> map correct_choice_ids out = map correct_choice_ids questions"
  proof
    assume "\<not> randomize_questions"
    with nr co have "map ?core out = map ?core questions" by simp
    then have "map (\<lambda>t. fst (snd (snd (snd t)))) (map ?core out)
             = map (\<lambda>t. fst (snd (snd (snd t)))) (map ?core questions)" by (simp only:)
    then show "map correct_choice_ids out = map correct_choice_ids questions"
      by (simp add: comp_def)
  qed
  from a b show ?thesis by (rule conjI)
qed

theorem postprocess_questions_correct_ids_witness:
  "\<exists>out r'. postprocess_questions
       [sample_question ''SATA'' ''a'' [''c1'', ''c2''], sample_question ''SATA'' ''b'' [''c2'']]
       ''SATA'' 2 True True [0, 0, 0] = Inr (out, r')
     \<and> mset (map (\<lambda>q. (stem q, q_chunk_id q, question_type q, correct_choice_ids q,
                          map_option mset (choices q))) out)
         = mset (map (\<lambda>q. (stem q, q_chunk_id q, question_type q, correct_choice_ids q,
                          map_option mset (choices q)))
              [sample_question ''SATA'' ''a'' [''c1'', ''c2''], sample_question ''SATA'' ''b'' [''c2'']])"
proof -
  let ?qs = "[sample_question ''SATA'' ''a'' [''c1'', ''c2''], sample_question ''SATA'' ''b'' [''c2'']]"
  have v: "validate_all ''SATA'' 2 ?qs = Inr (map setdefault_explanation ?qs)"
    by code_simp
  from postprocess_after_validation[OF v, of True True "[0, 0, 0]"] obtain qs3 r' where
    a: "postprocess_questions ?qs ''SATA'' 2 True True [0, 0, 0] = Inr (assign_ids 1 qs3, r')"
    by (elim exE conjE)
  from postprocess_questions_correct_ids[OF a] have
    b: "mset (map (\<lambda>q. (stem q, q_chunk_id q, question_type q, correct_choice_ids q,
                          map_option mset (choices q))) (assign_ids 1 qs3))
         = mset (map (\<lambda>q. (stem q, q_chunk_id q, question_type q, correct_choice_ids q,
                          map_option mset (choices q))) ?qs)"
    by (rule conjunct1)
  show ?thesis
    by (rule exI[of _ "assign_ids 1 qs3"], rule exI[of _ r'], rule conjI[OF a b])
qed

text \<open>
  Claim C9.  With both randomization flags false, applying \<open>postprocess_questions\<close> to its
  own result (same type and choice count, any state of the random source) raises no error
  and returns the same list: same order, same fields, same ids.
\<close>

theorem postprocess_questions_idempotent:
  assumes "postprocess_questions questions qtype n False False r = Inr (out, r1)"
  shows "postprocess_questions out qtype n False False r2 = Inr (out, r2)"
proof -
  from postprocess_Inr_validated[OF assms] obtain qs1
    where v: "validate_all qtype n questions = Inr qs1" by blast
  with assms have out: "out = assign_ids 1 qs1" by (simp add: postprocess_questions_def)
  have "validate_all qtype n out = Inr out" unfolding out using v by (rule validate_all_assign_ids)
  then have "postprocess_questions out qtype n False False r2 = Inr (assign_ids 1 out, r2)"
    by (simp add: postprocess_questions_def)
  also have "assign_ids 1 out = out" unfolding out by (rule assign_ids_idem)
  finally show ?thesis .
qed

theorem postprocess_questions_idempotent_witness:
  "\<exists>out r1. postprocess_questions
       [sample_question ''MCQ'' ''a'' [''c1''], sample_question ''MCQ'' ''b'' [''c2'']]
       ''MCQ'' 2 False False [] = Inr (out, r1)
     \<and> postprocess_questions out ''MCQ'' 2 False False [7] = Inr (out, [7])"
proof -
  let ?qs = "[sample_question ''MCQ'' ''a'' [''c1''], sample_question ''MCQ'' ''b'' [''c2'']]"
  have v: "validate_all ''MCQ'' 2 ?qs = Inr (map setdefault_explanation ?qs)"
    by code_simp
  from postprocess_after_validation[OF v, of False False "[]"] obtain qs3 r' where
    a: "postprocess_questions ?qs ''MCQ'' 2 False False [] = Inr (assign_ids 1 qs3, r')"
    by (elim exE conjE)
  have b: "postprocess_questions (assign_ids 1 qs3) ''MCQ'' 2 False False [7]
             = Inr (assign_ids 1 qs3, [7])"
    by (rule postprocess_questions_idempotent[OF a])
  show ?thesis
    by (rule exI[of _ "assign_ids 1 qs3"], rule exI[of _ r'], rule conjI[OF a b])
qed

section \<open>Mock generator\<close>

lemma mock_choice_ids:
  "map choice_id (mock_choices cid n) = map (\<lambda>k. Some (''c'' @ str_int k)) [1..n]"
  by (simp add: mock_choices_def comp_def)

lemma mock_choice_ids_distinct: "distinct (map choice_id (mock_choices cid n))"
proof -
  have "inj_on (\<lambda>k. Some (''c'' @ str_int k)) (set [1..n])"
  proof (rule inj_onI)
    fix x y assume "x \<in> set [1..n]" "y \<in> set [1..n]"
      and "Some (''c'' @ str_int x) = Some (''c'' @ str_int y)"
    then have "0 \<le> x" "0 \<le> y" "str_int x = str_int y" by auto
    then show "x = y" by (rule str_int_inj_nonneg)
  qed
  then show ?thesis unfolding mock_choice_ids by (simp add: distinct_map)
qed

lemma mock_choices_length: "0 \<le> n \<Longrightarrow> int (length (mock_choices cid n)) = n"
  by (simp add: mock_choices_def)

lemma mock_choice_ids_truthy: "\<not> list_ex falsy (map choice_id (mock_choices cid n))"
  by (simp add: mock_choice_ids list_ex_iff falsy_def)

lemma mock_choice_id_mem:
  "1 \<le> k \<Longrightarrow> k \<le> n \<Longrightarrow> Some (''c'' @ str_int k) \<in> set (map choice_id (mock_choices cid n))"
  unfolding mock_choice_ids by auto

lemma c_literals: "''c1'' = ''c'' @ str_int 1" "''c2'' = ''c'' @ str_int 2" "''c4'' = ''c'' @ str_int 4"
  by (simp_all add: str_int_small)

lemma mock_correct_subset:
  assumes "2 \<le> n" and "cid \<in> set (mock_correct qtype n)"
  shows "Some cid \<in> set (map choice_id (mock_choices c n))"
proof -
  from assms have "cid = ''c'' @ str_int 1 \<or> cid = ''c'' @ str_int 2 \<or> (cid = ''c'' @ str_int 4 \<and> 4 \<le> n)"
    unfolding mock_correct_def c_literals by (auto split: if_splits)
  with assms(1) show ?thesis using mock_choice_id_mem[of _ n c] by fastforce
qed

lemma mock_correct_nonempty: "mock_correct qtype n \<noteq> []"
  by (simp add: mock_correct_def)

lemma mock_correct_mcq: "length (mock_correct ''MCQ'' n) = 1"
  by (simp add: mock_correct_def)

lemma mock_question_validates:
  assumes "2 \<le> cfg_choices_per_question cfg"
    and "q \<in> set (mock_generate_questions_for_chunk ch cfg)"
  shows "validate_question (cfg_question_type cfg) (cfg_choices_per_question cfg) q = Inr q"
proof -
  let ?n = "cfg_choices_per_question cfg" and ?t = "cfg_question_type cfg"
  let ?cs = "mock_choices (chunk_id ch) ?n"
  from assms(2) obtain s where q: "q = \<lparr>q_id = None, question_type = Some ?t, stem = Some s,
      choices = Some ?cs, correct_choice_ids = Some (mock_correct ?t ?n),
      q_chunk_id = Some (chunk_id ch), explanation = Some []\<rparr>"
    by (auto simp: mock_generate_questions_for_chunk_def Let_def)
  have l: "int (length ?cs) = ?n" using assms(1) by (intro mock_choices_length) simp
  have d: "card (set (map choice_id ?cs)) = length (map choice_id ?cs)"
    using mock_choice_ids_distinct by (rule distinct_card)
  have t: "\<not> list_ex falsy (map choice_id ?cs)" by (rule mock_choice_ids_truthy)
  have ne: "\<not> length (mock_correct ?t ?n) < 1"
    using mock_correct_nonempty[of ?t ?n] by (cases "mock_correct ?t ?n") auto
  have m: "\<not> (?t = ''MCQ'' \<and> length (mock_correct ?t ?n) \<noteq> 1)"
    using mock_correct_mcq by auto
  have sub: "\<not> list_ex (\<lambda>cid. Some cid \<notin> set (map choice_id ?cs)) (mock_correct ?t ?n)"
    using mock_correct_subset[OF assms(1)] by (simp add: list_ex_iff)
  have sd: "setdefault_explanation q = q" unfolding q by (simp add: setdefault_explanation_def)
  have "validate_question ?t ?n q = Inr (setdefault_explanation q)"
    unfolding validate_question_def Let_def using l d t ne m sub by (simp add: q)
  then show ?thesis by (simp only: sd)
qed

lemma validate_all_each_ok:
  "\<forall>q\<in>set qs. validate_question qt n q = Inr q \<Longrightarrow> validate_all qt n qs = Inr qs"
  by (induction qs) simp_all


lemma mock_question_shape:
  assumes "2 \<le> cfg_choices_per_question cfg"
    and "q \<in> set (mock_generate_questions_for_chunk ch cfg)"
  shows "\<exists>cs cc s. choices q = Some cs
          \<and> int (length cs) = cfg_choices_per_question cfg
          \<and> map choice_id cs = map (\<lambda>k. Some (''c'' @ str_int k)) [1..cfg_choices_per_question cfg]
          \<and> distinct (map choice_id cs)
          \<and> \<not> list_ex falsy (map choice_id cs)
          \<and> correct_choice_ids q = Some cc \<and> cc \<noteq> []
          \<and> (\<forall>c\<in>set cc. Some c \<in> set (map choice_id cs))
          \<and> (cfg_question_type cfg = ''MCQ'' \<longrightarrow> length cc = 1)
          \<and> question_type q = Some (cfg_question_type cfg)
          \<and> stem q = Some s \<and> q_chunk_id q = Some (chunk_id ch) \<and> explanation q = Some []"
proof -
  let ?n = "cfg_choices_per_question cfg" and ?t = "cfg_question_type cfg"
  let ?cs = "mock_choices (chunk_id ch) ?n"
  let ?cc = "mock_correct ?t ?n"
  from assms(2) obtain s where q: "q = \<lparr>q_id = None, question_type = Some ?t, stem = Some s,
      choices = Some ?cs, correct_choice_ids = Some ?cc,
      q_chunk_id = Some (chunk_id ch), explanation = Some []\<rparr>"
    by (auto simp: mock_generate_questions_for_chunk_def Let_def)
  have 1: "choices q = Some ?cs" by (simp add: q)
  have 2: "int (length ?cs) = ?n" using assms(1) by (intro mock_choices_length) simp
  have 3: "map choice_id ?cs = map (\<lambda>k. Some (''c'' @ str_int k)) [1..?n]"
    by (rule mock_choice_ids)
  have 4: "distinct (map choice_id ?cs)" by (rule mock_choice_ids_distinct)
  have 5: "\<not> list_ex falsy (map choice_id ?cs)" by (rule mock_choice_ids_truthy)
  have 6: "correct_choice_ids q = Some ?cc" by (simp add: q)
  have 7: "?cc \<noteq> []" by (rule mock_correct_nonempty)
  have 8: "\<forall>c\<in>set ?cc. Some c \<in> set (map choice_id ?cs)"
    using mock_correct_subset[OF assms(1)] by blast
  have 9: "?t = ''MCQ'' \<longrightarrow> length ?cc = 1" using mock_correct_mcq by simp
  have 10: "question_type q = Some ?t" by (simp add: q)
  have 11: "stem q = Some s" by (simp add: q)
  have 12: "q_chunk_id q = Some (chunk_id ch)" by (simp add: q)
  have 13: "explanation q = Some []" by (simp add: q)
  show ?thesis
    by (rule exI[of _ ?cs], rule exI[of _ ?cc], rule exI[of _ s])
       (intro conjI 1 2 3 4 5 6 7 8 9 10 11 12 13)
qed

lemma mock_length:
  "0 \<le> cfg_questions_per_partition cfg \<Longrightarrow>
     int (length (mock_generate_questions_for_chunk ch cfg)) = cfg_questions_per_partition cfg"
  by (simp add: mock_generate_questions_for_chunk_def Let_def)

text \<open>
  Claim C10.  For every chunk and every configuration with type MCQ or SATA, at least 2
  choices per question and at least 1 question per partition, the list built by
  \<open>mock_generate_questions_for_chunk\<close> passes validation for the same type and choice count
  (so \<open>postprocess_questions\<close> returns, for all flags and random states).  Each mock question
  has exactly that many choices, with the distinct non-empty ids \<open>c1..cN\<close>; a non-empty
  \<open>correct_choice_ids\<close> list drawn from those ids, of length 1 when MCQ; and a stem, the
  chunk's id and an (empty) explanation.
\<close>

theorem mock_questions_pass_validation:
  assumes "cfg_question_type cfg = ''MCQ'' \<or> cfg_question_type cfg = ''SATA''"
    and "2 \<le> cfg_choices_per_question cfg"
    and "1 \<le> cfg_questions_per_partition cfg"
  shows "(\<exists>out r'. postprocess_questions (mock_generate_questions_for_chunk ch cfg)
             (cfg_question_type cfg) (cfg_choices_per_question cfg)
             randomize_questions randomize_options r = Inr (out, r'))
       \<and> validate_all (cfg_question_type cfg) (cfg_choices_per_question cfg)
            (mock_generate_questions_for_chunk ch cfg)
           = Inr (mock_generate_questions_for_chunk ch cfg)
       \<and> int (length (mock_generate_questions_for_chunk ch cfg)) = cfg_questions_per_partition cfg
       \<and> (\<forall>q\<in>set (mock_generate_questions_for_chunk ch cfg).
            \<exists>cs cc s. choices q = Some cs
              \<and> int (length cs) = cfg_choices_per_question cfg
              \<and> map choice_id cs
                  = map (\<lambda>k. Some (''c'' @ str_int k)) [1..cfg_choices_per_question cfg]
              \<and> distinct (map choice_id cs)
              \<and> \<not> list_ex falsy (map choice_id cs)
              \<and> correct_choice_ids q = Some cc \<and> cc \<noteq> []
              \<and> (\<forall>c\<in>set cc. Some c \<in> set (map choice_id cs))
              \<and> (cfg_question_type cfg = ''MCQ'' \<longrightarrow> length cc = 1)
              \<and> question_type q = Some (cfg_question_type cfg)
              \<and> stem q = Some s \<and> q_chunk_id q = Some (chunk_id ch) \<and> explanation q = Some [])"
proof -
  let ?qs = "mock_generate_questions_for_chunk ch cfg"
  have v: "validate_all (cfg_question_type cfg) (cfg_choices_per_question cfg) ?qs = Inr ?qs"
    by (rule validate_all_each_ok) (simp add: mock_question_validates[OF assms(2)])
  from postprocess_after_validation[OF v, of randomize_questions randomize_options r]
  obtain qs3 r' where "postprocess_questions ?qs (cfg_question_type cfg)
      (cfg_choices_per_question cfg) randomize_questions randomize_options r
        = Inr (assign_ids 1 qs3, r')"
    by (elim exE conjE)
  then have a: "\<exists>out r'. postprocess_questions ?qs (cfg_question_type cfg)
      (cfg_choices_per_question cfg) randomize_questions randomize_options r = Inr (out, r')"
    by (intro exI)
  have l: "int (length ?qs) = cfg_questions_per_partition cfg"
    using assms(3) by (intro mock_length) simp
  have s: "\<forall>q\<in>set ?qs.
            \<exists>cs cc s. choices q = Some cs
              \<and> int (length cs) = cfg_choices_per_question cfg
              \<and> map choice_id cs
                  = map (\<lambda>k. Some (''c'' @ str_int k)) [1..cfg_choices_per_question cfg]
              \<and> distinct (map choice_id cs)
              \<and> \<not> list_ex falsy (map choice_id cs)
              \<and> correct_choice_ids q = Some cc \<and> cc \<noteq> []
              \<and> (\<forall>c\<in>set cc. Some c \<in> set (map choice_id cs))
              \<and> (cfg_question_type cfg = ''MCQ'' \<longrightarrow> length cc = 1)
              \<and> question_type q = Some (cfg_question_type cfg)
              \<and> stem q = Some s \<and> q_chunk_id q = Some (chunk_id ch) \<and> explanation q = Some []"
    by (intro ballI mock_question_shape[OF assms(2)])
  show ?thesis by (intro conjI a v l s)
qed

theorem mock_questions_pass_validation_witness:
  "(cfg_question_type sample_config = ''MCQ'' \<or> cfg_question_type sample_config = ''SATA'')
   \<and> 2 \<le> cfg_choices_per_question sample_config \<and> 1 \<le> cfg_questions_per_partition sample_config
   \<and> (\<exists>out r'. postprocess_questions (mock_generate_questions_for_chunk sample_chunk sample_config)
             (cfg_question_type sample_config) (cfg_choices_per_question sample_config) True True [3, 1, 2] = Inr (out, r'))"
proof -
  have a: "cfg_question_type sample_config = ''MCQ'' \<or> cfg_question_type sample_config = ''SATA''"
    by (simp add: sample_config_def)
  have b: "2 \<le> cfg_choices_per_question sample_config" by (simp add: sample_config_def)
  have c: "1 \<le> cfg_questions_per_partition sample_config" by (simp add: sample_config_def)
  have d: "\<exists>out r'. postprocess_questions (mock_generate_questions_for_chunk sample_chunk sample_config)
             (cfg_question_type sample_config) (cfg_choices_per_question sample_config) True True [3, 1, 2] = Inr (out, r')"
    by (rule conjunct1[OF mock_questions_pass_validation[OF a b c]])
  show ?thesis by (intro conjI a b c d)
qed

section \<open>Retry loops and the enricher loop: lemmas\<close>

lemma upto_1_3: "[1..3::int] = [1, 2, 3]"
  by (simp add: upto.simps)

lemma generate_attempts_all_raise:
  assumes "\<forall>k<3. client (calls + k) prompt = Raises"
  shows "generate_attempts client prompt 3 [1..3] calls = (Returned_Empty, calls + 3)"
proof -
  from assms have "client calls prompt = Raises" "client (Suc calls) prompt = Raises"
    "client (Suc (Suc calls)) prompt = Raises"
    using assms[rule_format, of 0] assms[rule_format, of 1] assms[rule_format, of 2] by simp_all
  then show ?thesis by (simp add: upto_1_3)
qed

lemma explain_attempts_all_raise:
  assumes "\<forall>k<3. client (calls + k) prompt = Raises"
  shows "explain_attempts client prompt [1..3] calls = (None, calls + 3)"
proof -
  from assms have "client calls prompt = Raises" "client (Suc calls) prompt = Raises"
    "client (Suc (Suc calls)) prompt = Raises"
    using assms[rule_format, of 0] assms[rule_format, of 1] assms[rule_format, of 2] by simp_all
  then show ?thesis by (simp add: upto_1_3)
qed

lemma explain_attempts_third:
  assumes "client calls prompt = Raises" and "client (calls + 1) prompt = Raises"
    and "client (calls + 2) prompt = Returns t"
  shows "explain_attempts client prompt [1..3] calls = (Some (strip t), calls + 3)"
  using assms by (simp add: upto_1_3)

lemma generate_attempts_third:
  assumes "client calls prompt = Raises" and "client (calls + 1) prompt = Raises"
    and "client (calls + 2) prompt = Returns d"
  shows "generate_attempts client prompt 3 [1..3] calls = (Data d, calls + 3)"
  using assms by (simp add: upto_1_3)

lemma py_format_single_field:
  "py_format ''{context}'' [(''context'', v)] = Inr v"
  by (simp add: py_format_def get_field_def is_digit_def prepend_def)

lemma by_id_index_Some:
  assumes "by_id_index qs qid = Some i"
  shows "i < length qs \<and> q_id (qs ! i) = Some qid"
proof -
  from assms obtain rest where
    "filter (\<lambda>i. q_id (qs ! i) = Some qid) (rev [0..<length qs]) = i # rest"
    by (auto simp: by_id_index_def split: list.splits)
  then have "i \<in> set (filter (\<lambda>i. q_id (qs ! i) = Some qid) (rev [0..<length qs]))"
    by simp
  then show ?thesis by simp
qed

lemma by_id_index_None:
  assumes "\<forall>q\<in>set qs. q_id q \<noteq> Some qid"
  shows "by_id_index qs qid = None"
proof -
  have "filter (\<lambda>i. q_id (qs ! i) = Some qid) (rev [0..<length qs]) = []"
    using assms by (auto simp: filter_empty_conv)
  then show ?thesis by (simp add: by_id_index_def)
qed

lemma bump_fields:
  "st_questions (bump s) = st_questions s" "st_calls (bump s) = st_calls s"
  "updated (bump s) = updated s" "skipped_failed (bump s) = skipped_failed s"
  by (simp_all add: bump_def)

lemma bump_comm:
  "(bump s)\<lparr>skipped_missing := Suc (skipped_missing (bump s))\<rparr>
     = bump (s\<lparr>skipped_missing := Suc (skipped_missing s)\<rparr>)"
  "(bump s)\<lparr>skipped_failed := a, st_calls := c\<rparr> = bump (s\<lparr>skipped_failed := a, st_calls := c\<rparr>)"
  "(bump s)\<lparr>st_questions := q, updated := u, st_calls := c\<rparr>
     = bump (s\<lparr>st_questions := q, updated := u, st_calls := c\<rparr>)"
  by (simp_all add: bump_def)

lemma explain_each_skipped_missing_shift:
  "explain_each fs cl pf n by_id ids (bump st)
     = map_sum (\<lambda>e. e) bump (explain_each fs cl pf n by_id ids st)"
proof (induction ids arbitrary: st)
  case Nil
  then show ?case by simp
next
  case (Cons qid ids)
  show ?case
  proof (cases "by_id qid")
    case None
    then show ?thesis by (simp add: bump_fields bump_comm Cons)
  next
    case (Some i)
    show ?thesis
    proof (cases "explain_prompt fs pf (st_questions st ! i)")
      case (Inl e)
      with Some show ?thesis by (simp add: bump_fields)
    next
      case (Inr prompt)
      obtain res c where a: "explain_attempts cl prompt [1..n] (st_calls st) = (res, c)"
        by (cases "explain_attempts cl prompt [1..n] (st_calls st)")
      show ?thesis
      proof (cases res)
        case None
        with Some Inr a show ?thesis by (simp add: bump_fields bump_comm Cons)
      next
        case (Some t)
        with \<open>by_id qid = Some i\<close> Inr a show ?thesis
          by (simp add: bump_fields bump_comm Cons)
      qed
    qed
  qed
qed

lemma explain_each_unknown:
  assumes "by_id qid = None"
  shows "explain_each fs cl pf n by_id (pre @ qid # post) st
     = map_sum (\<lambda>e. e) bump (explain_each fs cl pf n by_id (pre @ post) st)"
proof (induction pre arbitrary: st)
  case Nil
  have "explain_each fs cl pf n by_id (qid # post) st
      = explain_each fs cl pf n by_id post (bump st)"
    using assms by (simp add: bump_def)
  then show ?case by (simp add: explain_each_skipped_missing_shift)
next
  case (Cons a pre)
  show ?case
    by (simp add: Cons split: option.splits sum.splits prod.splits)
qed

lemma explain_each_frame:
  assumes "explain_each fs cl pf n by_id ids st = Inr st'"
    and "\<forall>qid i. by_id qid = Some i \<longrightarrow>
           i < length (st_questions st) \<and> q_id (st_questions st ! i) = Some qid"
  shows "length (st_questions st') = length (st_questions st)
       \<and> (\<forall>k<length (st_questions st).
            (\<exists>e. st_questions st' ! k = (st_questions st ! k)\<lparr>explanation := e\<rparr>)
            \<and> (q_id (st_questions st ! k) \<notin> Some ` set ids \<longrightarrow>
                 st_questions st' ! k = st_questions st ! k))"
  using assms
proof (induction ids arbitrary: st)
  case Nil
  then have eq: "st' = st" by simp
  have "\<And>k. \<exists>e. st_questions st ! k = (st_questions st ! k)\<lparr>explanation := e\<rparr>"
  proof -
    fix k
    show "\<exists>e. st_questions st ! k = (st_questions st ! k)\<lparr>explanation := e\<rparr>"
      by (rule exI[of _ "explanation (st_questions st ! k)"]) simp
  qed
  then show ?case unfolding eq by simp
next
  case (Cons qid ids)
  let ?qs = "st_questions st"
  show ?case
  proof (cases "by_id qid")
    case None
    with Cons.prems(1) have r: "explain_each fs cl pf n by_id ids
        (st\<lparr>skipped_missing := skipped_missing st + 1\<rparr>) = Inr st'" by simp
    from Cons.IH[OF r] Cons.prems(2) show ?thesis by simp
  next
    case (Some i)
    with Cons.prems(2) have i: "i < length ?qs" "q_id (?qs ! i) = Some qid" by auto
    from Cons.prems(1) Some obtain prompt where
      p: "explain_prompt fs pf (?qs ! i) = Inr prompt"
      by (cases "explain_prompt fs pf (?qs ! i)") auto
    obtain res c where a: "explain_attempts cl prompt [1..n] (st_calls st) = (res, c)"
      by (cases "explain_attempts cl prompt [1..n] (st_calls st)")
    show ?thesis
    proof (cases res)
      case None
      with Cons.prems(1) Some p a have r: "explain_each fs cl pf n by_id ids
          (st\<lparr>skipped_failed := skipped_failed st + 1, st_calls := c\<rparr>) = Inr st'" by simp
      from Cons.IH[OF r] Cons.prems(2) show ?thesis by simp
    next
      case (Some t)
      let ?qs1 = "?qs[i := (?qs ! i)\<lparr>explanation := Some t\<rparr>]"
      let ?st1 = "st\<lparr>st_questions := ?qs1, updated := updated st + 1, st_calls := c\<rparr>"
      from Cons.prems(1) \<open>by_id qid = Some i\<close> p a Some
      have r: "explain_each fs cl pf n by_id ids ?st1 = Inr st'" by simp
      have inv: "\<forall>qid i. by_id qid = Some i \<longrightarrow>
           i < length (st_questions ?st1) \<and> q_id (st_questions ?st1 ! i) = Some qid"
      proof (intro allI impI)
        fix q' j assume "by_id q' = Some j"
        with Cons.prems(2) have j: "j < length ?qs" "q_id (?qs ! j) = Some q'" by auto
        have "q_id (?qs1 ! j) = q_id (?qs ! j)" using j(1) i(1) by (cases "j = i") simp_all
        with j show "j < length (st_questions ?st1) \<and> q_id (st_questions ?st1 ! j) = Some q'"
          by simp
      qed
      from Cons.IH[OF r inv] have len: "length (st_questions st') = length ?qs"
        and each: "\<forall>k<length ?qs.
            (\<exists>e. st_questions st' ! k = (?qs1 ! k)\<lparr>explanation := e\<rparr>)
            \<and> (q_id (?qs1 ! k) \<notin> Some ` set ids \<longrightarrow> st_questions st' ! k = ?qs1 ! k)"
        by simp_all
      have "\<forall>k<length ?qs.
            (\<exists>e. st_questions st' ! k = (?qs ! k)\<lparr>explanation := e\<rparr>)
            \<and> (q_id (?qs ! k) \<notin> Some ` set (qid # ids) \<longrightarrow> st_questions st' ! k = ?qs ! k)"
      proof (intro allI impI)
        fix k assume k: "k < length ?qs"
        from each k obtain e where e: "st_questions st' ! k = (?qs1 ! k)\<lparr>explanation := e\<rparr>"
          and u: "q_id (?qs1 ! k) \<notin> Some ` set ids \<longrightarrow> st_questions st' ! k = ?qs1 ! k"
          by blast
        show "(\<exists>e. st_questions st' ! k = (?qs ! k)\<lparr>explanation := e\<rparr>)
            \<and> (q_id (?qs ! k) \<notin> Some ` set (qid # ids) \<longrightarrow> st_questions st' ! k = ?qs ! k)"
        proof (cases "k = i")
          case True
          with e i have "st_questions st' ! k = (?qs ! k)\<lparr>explanation := e\<rparr>" by simp
          moreover have "q_id (?qs ! k) \<in> Some ` set (qid # ids)" using True i by simp
          ultimately show ?thesis by blast
        next
          case False
          then have same: "?qs1 ! k = ?qs ! k" by simp
          with e u show ?thesis by auto
        qed
      qed
      with len show ?thesis by simp
    qed
  qed
qed

lemma by_id_index_inv:
  "\<forall>qid i. by_id_index qs qid = Some i \<longrightarrow> i < length qs \<and> q_id (qs ! i) = Some qid"
  using by_id_index_Some by blast


section \<open>Generation and enrichment claims\<close>

text \<open>
  Claim C5, as the code has it.  A retryable failure is a call of the oracle that raises
  (for structured output this includes text that does not parse as JSON).  With the budget
  of 3 attempts: when the three calls raise, \<open>llm_generate_questions_for_chunk\<close> returns the
  empty list, having made exactly 3 calls, and raises nothing; in the enricher the loop goes
  on to the remaining ids with \<open>skipped_failed\<close> incremented, the questions (and so the
  explanation) untouched, having made exactly 3 calls.
\<close>

theorem retry_exhaustion:
  "(generator_prompt fs cfg chunk_text r = Inr (prompt, r') \<longrightarrow>
      (\<forall>k<3. client (calls + k) prompt = Raises) \<longrightarrow>
      llm_generate_questions_for_chunk fs client ch cfg chunk_text 3 r calls
        = Inr ([], r', calls + 3))
   \<and> (by_id qid = Some i \<longrightarrow>
        explain_prompt fs explain_prompt_file (st_questions st ! i) = Inr eprompt \<longrightarrow>
        (\<forall>k<3. tclient (st_calls st + k) eprompt = Raises) \<longrightarrow>
        explain_each fs tclient explain_prompt_file 3 by_id (qid # rest) st
          = explain_each fs tclient explain_prompt_file 3 by_id rest
              (st\<lparr>skipped_failed := skipped_failed st + 1, st_calls := st_calls st + 3\<rparr>))"
proof (intro conjI impI)
  assume "generator_prompt fs cfg chunk_text r = Inr (prompt, r')"
    and "\<forall>k<3. client (calls + k) prompt = Raises"
  then show "llm_generate_questions_for_chunk fs client ch cfg chunk_text 3 r calls
        = Inr ([], r', calls + 3)"
    by (simp add: llm_generate_questions_for_chunk_def generate_attempts_all_raise)
next
  assume "by_id qid = Some i"
    and "explain_prompt fs explain_prompt_file (st_questions st ! i) = Inr eprompt"
    and "\<forall>k<3. tclient (st_calls st + k) eprompt = Raises"
  then show "explain_each fs tclient explain_prompt_file 3 by_id (qid # rest) st
          = explain_each fs tclient explain_prompt_file 3 by_id rest
              (st\<lparr>skipped_failed := skipped_failed st + 1, st_calls := st_calls st + 3\<rparr>)"
    by (simp add: explain_attempts_all_raise)
qed


theorem retry_exhaustion_witness:
  "generator_prompt sample_files mcq_config ''page text'' []
      = Inr (''Context: page text\<newline>\<newline>Write 1 MCQ questions.'', [])
   \<and> llm_generate_questions_for_chunk sample_files always_raises sample_chunk mcq_config
        ''page text'' 3 [] 0 = Inr ([], [], 0 + 3)
   \<and> by_id_index (questions_of sample_output) ''q_0002'' = Some 1
   \<and> explain_prompt sample_files ''explain.txt'' (questions_of sample_output ! 1) = Inr ''Q: b''
   \<and> explain_each sample_files always_raises ''explain.txt'' 3
        (by_id_index (questions_of sample_output)) [''q_0002'']
        \<lparr>st_questions = questions_of sample_output, updated = 0, skipped_missing = 0,
         skipped_failed = 0, st_calls = 0\<rparr>
      = Inr \<lparr>st_questions = questions_of sample_output, updated = 0, skipped_missing = 0,
             skipped_failed = 1, st_calls = 3\<rparr>"
proof -
  let ?p = "''Context: page text\<newline>\<newline>Write 1 MCQ questions.''"
  let ?st = "\<lparr>st_questions = questions_of sample_output, updated = 0, skipped_missing = 0,
         skipped_failed = 0, st_calls = 0\<rparr>"
  have a: "generator_prompt sample_files mcq_config ''page text'' [] = Inr (?p, [])"
    by code_simp
  have b: "\<forall>k<3. (always_raises :: gen_oracle) (0 + k) ?p = Raises"
    by (simp add: always_raises_def)
  have c: "by_id_index (questions_of sample_output) ''q_0002'' = Some 1"
    by code_simp
  have d: "explain_prompt sample_files ''explain.txt'' (st_questions ?st ! 1) = Inr ''Q: b''"
    by code_simp
  have e: "\<forall>k<3. (always_raises :: text_oracle) (st_calls ?st + k) ''Q: b'' = Raises"
    by (simp add: always_raises_def)
  note w = retry_exhaustion[of sample_files mcq_config "''page text''" "[]" ?p "[]"
      always_raises 0 sample_chunk "by_id_index (questions_of sample_output)" "''q_0002''" 1
      "''explain.txt''" ?st "''Q: b''" always_raises "[]"]
  have g: "llm_generate_questions_for_chunk sample_files always_raises sample_chunk mcq_config
        ''page text'' 3 [] 0 = Inr ([], [], 0 + 3)"
    by (rule mp[OF mp[OF conjunct1[OF w] a] b])
  have h: "explain_each sample_files always_raises ''explain.txt'' 3
        (by_id_index (questions_of sample_output)) [''q_0002''] ?st
      = explain_each sample_files always_raises ''explain.txt'' 3
        (by_id_index (questions_of sample_output)) []
          (?st\<lparr>skipped_failed := skipped_failed ?st + 1, st_calls := st_calls ?st + 3\<rparr>)"
    by (rule mp[OF mp[OF mp[OF conjunct2[OF w] c] d] e])
  have h': "explain_each sample_files always_raises ''explain.txt'' 3
        (by_id_index (questions_of sample_output)) [''q_0002''] ?st
      = Inr \<lparr>st_questions = questions_of sample_output, updated = 0, skipped_missing = 0,
             skipped_failed = 1, st_calls = 3\<rparr>"
    unfolding h by simp
  have d': "explain_prompt sample_files ''explain.txt'' (questions_of sample_output ! 1) = Inr ''Q: b''"
    using d by simp
  show ?thesis by (intro conjI a g c d' h')
qed


text \<open>
  The claim as stated also counts output that parses but does not conform as a failure that
  is retried.  The code has no conformance check: such output ends the retry loop as a
  success, and reading \<^verbatim>\<open>data["questions"]\<close> then raises \<^verbatim>\<open>KeyError\<close> out of the
  function on the first attempt, although the second attempt would have returned
  conforming output.
\<close>

theorem nonconforming_output_not_retried:
  "nonconforming_then_good 0 ''Context: page text\<newline>\<newline>Write 1 MCQ questions.'' = Returns None
   \<and> nonconforming_then_good 1 ''Context: page text\<newline>\<newline>Write 1 MCQ questions.''
       = Returns (Some [good_item])
   \<and> generator_prompt sample_files mcq_config ''page text'' []
        = Inr (''Context: page text\<newline>\<newline>Write 1 MCQ questions.'', [])
   \<and> llm_generate_questions_for_chunk sample_files nonconforming_then_good sample_chunk
        mcq_config ''page text'' 3 [] 0 = Inl (KeyError ''questions'')"
  by code_simp


text \<open>
  Claim C6.  The chunk text and the stem are brace-escaped and then passed as
  \<^emph>\<open>values\<close> to \<^verbatim>\<open>format\<close>, which copies values without scanning them: no formatting
  error can come from their braces, but the escaping itself reaches the prompt.  The text
  \<^verbatim>\<open>f(x) = {x}\<close> appears in the rendered generation prompt as \<^verbatim>\<open>f(x) = {{x}}\<close>, and the
  stem \<^verbatim>\<open>a {b}\<close> in the explanation prompt as \<^verbatim>\<open>a {{b}}\<close>: not exactly as in the source
  text.  Without the escaping the same template renders the stem unchanged.
\<close>

theorem escaped_braces_doubled_in_prompt:
  "generator_prompt sample_files mcq_config ''f(x) = {x}'' []
      = Inr (''Context: f(x) = {{x}}\<newline>\<newline>Write 1 MCQ questions.'', [])
   \<and> explain_prompt sample_files ''explain.txt''
        ((sample_question ''MCQ'' ''a {b}'' [''c1''])\<lparr>q_id := Some ''q_0001''\<rparr>)
      = Inr ''Q: a {{b}}''
   \<and> py_format ''Q: {stem}'' [(''stem'', ''a {b}'')] = Inr ''Q: a {b}''"
  by code_simp
section \<open>Enricher claims\<close>

text \<open>
  Claim C7.  An id that matches no question of the loaded output never raises: wherever it
  stands in \<open>wrong_ids\<close>, the call behaves exactly as the call without it (same result or
  same exception, same updates, same oracle calls), with \<open>skipped_missing\<close> one higher.
\<close>

theorem unknown_id_is_skipped:
  assumes "\<forall>q\<in>set (questions_of output). q_id q \<noteq> Some qid"
  shows "add_explanations_for_wrong_questions fs output (pre @ qid # post)
           explain_prompt_file client retries calls
       = map_sum (\<lambda>e. e) (\<lambda>(out, st). (out, st\<lparr>skipped_missing := skipped_missing st + 1\<rparr>))
           (add_explanations_for_wrong_questions fs output (pre @ post)
              explain_prompt_file client retries calls)"
proof -
  let ?st0 = "\<lparr>st_questions = questions_of output, updated = 0, skipped_missing = 0,
               skipped_failed = 0, st_calls = calls\<rparr>"
  let ?run = "\<lambda>ids. explain_each fs client explain_prompt_file retries
                 (by_id_index (questions_of output)) ids ?st0"
  have n: "by_id_index (questions_of output) qid = None"
    using assms by (rule by_id_index_None)
  have e: "?run (pre @ qid # post) = map_sum (\<lambda>e. e) bump (?run (pre @ post))"
    using n by (rule explain_each_unknown)
  show ?thesis
  proof (cases "?run (pre @ post)")
    case (Inl err)
    with e show ?thesis by (simp add: add_explanations_for_wrong_questions_def)
  next
    case (Inr st)
    with e have "?run (pre @ qid # post) = Inr (bump st)" by simp
    with Inr show ?thesis
      by (simp add: add_explanations_for_wrong_questions_def bump_fields) (simp add: bump_def)
  qed
qed



theorem unknown_id_is_skipped_witness:
  "\<exists>out st. add_explanations_for_wrong_questions sample_files sample_output
          [''q_0001'', ''q_9999''] ''explain.txt'' answers 3 0 = Inr (out, st)
        \<and> updated st = 1 \<and> skipped_missing st = 1 \<and> skipped_failed st = 0
        \<and> map explanation (questions_of out) = [Some ''because'', None]"
proof -
  let ?run = "\<lambda>ids. add_explanations_for_wrong_questions sample_files sample_output
          ids ''explain.txt'' answers 3 0"
  have h: "\<forall>q\<in>set (questions_of sample_output). q_id q \<noteq> Some ''q_9999''"
    by code_simp
  have one: "(case ?run [''q_0001''] of
               Inl e \<Rightarrow> False
             | Inr (out, st) \<Rightarrow> updated st = 1 \<and> skipped_missing st = 0 \<and> skipped_failed st = 0
                 \<and> map explanation (questions_of out) = [Some ''because'', None])"
    by code_simp
  then obtain out st where r: "?run [''q_0001''] = Inr (out, st)"
    and c: "updated st = 1" "skipped_missing st = 0" "skipped_failed st = 0"
      "map explanation (questions_of out) = [Some ''because'', None]"
    by (cases "?run [''q_0001'']") (simp_all split: prod.splits)
  have "?run ([''q_0001''] @ ''q_9999'' # [])
       = map_sum (\<lambda>e. e) (\<lambda>(out, st). (out, st\<lparr>skipped_missing := skipped_missing st + 1\<rparr>))
           (?run ([''q_0001''] @ []))"
    using h by (rule unknown_id_is_skipped)
  then have two: "?run [''q_0001'', ''q_9999'']
       = Inr (out, st\<lparr>skipped_missing := skipped_missing st + 1\<rparr>)"
    using r by simp
  have "?run [''q_0001'', ''q_9999''] = Inr (out, st\<lparr>skipped_missing := skipped_missing st + 1\<rparr>)
        \<and> updated (st\<lparr>skipped_missing := skipped_missing st + 1\<rparr>) = 1
        \<and> skipped_missing (st\<lparr>skipped_missing := skipped_missing st + 1\<rparr>) = 1
        \<and> skipped_failed (st\<lparr>skipped_missing := skipped_missing st + 1\<rparr>) = 0
        \<and> map explanation (questions_of out) = [Some ''because'', None]"
    using two c by simp
  then show ?thesis by (intro exI)
qed

text \<open>
  Claim C8.  Whenever \<open>add_explanations_for_wrong_questions\<close> returns, the top-level fields
  of the output (\<open>schema_version\<close>, \<open>run_id\<close>, \<open>context_file\<close>, settings) are unchanged,
  the question list has the same length, every question keeps its \<open>id\<close>, type, stem,
  choices, \<open>correct_choice_ids\<close> and \<open>chunk_id\<close> (only \<open>explanation\<close> may differ), and a
  question whose id is not in \<open>wrong_ids\<close> is unchanged altogether.
\<close>

theorem add_explanations_frame:
  assumes "add_explanations_for_wrong_questions fs output wrong_ids explain_prompt_file
             client retries calls = Inr (output', st)"
  shows "schema_version output' = schema_version output
       \<and> run_id output' = run_id output
       \<and> context_file output' = context_file output
       \<and> run_settings output' = run_settings output
       \<and> (out_questions output' = None \<longleftrightarrow> out_questions output = None)
       \<and> length (questions_of output') = length (questions_of output)
       \<and> (\<forall>k<length (questions_of output).
            q_id (questions_of output' ! k) = q_id (questions_of output ! k)
          \<and> question_type (questions_of output' ! k) = question_type (questions_of output ! k)
          \<and> stem (questions_of output' ! k) = stem (questions_of output ! k)
          \<and> choices (questions_of output' ! k) = choices (questions_of output ! k)
          \<and> correct_choice_ids (questions_of output' ! k)
              = correct_choice_ids (questions_of output ! k)
          \<and> q_chunk_id (questions_of output' ! k) = q_chunk_id (questions_of output ! k)
          \<and> (q_id (questions_of output ! k) \<notin> Some ` set wrong_ids \<longrightarrow>
               questions_of output' ! k = questions_of output ! k))"
proof -
  let ?qs = "questions_of output"
  let ?st0 = "\<lparr>st_questions = ?qs, updated = 0, skipped_missing = 0,
               skipped_failed = 0, st_calls = calls\<rparr>"
  from assms have run: "explain_each fs client explain_prompt_file retries (by_id_index ?qs)
      wrong_ids ?st0 = Inr st"
    and out: "output' = output\<lparr>out_questions := map_option (\<lambda>_. st_questions st) (out_questions output)\<rparr>"
    by (auto simp: add_explanations_for_wrong_questions_def Let_def split: sum.splits)
  have inv: "\<forall>qid i. by_id_index ?qs qid = Some i \<longrightarrow>
      i < length (st_questions ?st0) \<and> q_id (st_questions ?st0 ! i) = Some qid"
    using by_id_index_inv[of ?qs] by simp
  from explain_each_frame[OF run inv] have len: "length (st_questions st) = length ?qs"
    and each: "\<forall>k<length ?qs.
            (\<exists>e. st_questions st ! k = (?qs ! k)\<lparr>explanation := e\<rparr>)
            \<and> (q_id (?qs ! k) \<notin> Some ` set wrong_ids \<longrightarrow> st_questions st ! k = ?qs ! k)"
    by simp_all
  have qs': "questions_of output' = (if out_questions output = None then [] else st_questions st)"
    unfolding out by (cases "out_questions output") (simp_all add: questions_of_def)
  have qsn: "out_questions output = None \<Longrightarrow> ?qs = []" by (simp add: questions_of_def)
  have eq: "\<forall>k<length ?qs. questions_of output' ! k = st_questions st ! k"
    using qs' qsn by (cases "out_questions output = None") simp_all
  have l': "length (questions_of output') = length ?qs"
    using qs' qsn len by (cases "out_questions output = None") simp_all
  have top: "schema_version output' = schema_version output" "run_id output' = run_id output"
    "context_file output' = context_file output" "run_settings output' = run_settings output"
    "out_questions output' = None \<longleftrightarrow> out_questions output = None"
    unfolding out by simp_all
  have fr: "\<forall>k<length ?qs.
            q_id (questions_of output' ! k) = q_id (?qs ! k)
          \<and> question_type (questions_of output' ! k) = question_type (?qs ! k)
          \<and> stem (questions_of output' ! k) = stem (?qs ! k)
          \<and> choices (questions_of output' ! k) = choices (?qs ! k)
          \<and> correct_choice_ids (questions_of output' ! k) = correct_choice_ids (?qs ! k)
          \<and> q_chunk_id (questions_of output' ! k) = q_chunk_id (?qs ! k)
          \<and> (q_id (?qs ! k) \<notin> Some ` set wrong_ids \<longrightarrow> questions_of output' ! k = ?qs ! k)"
  proof (intro allI impI)
    fix k assume k: "k < length ?qs"
    from each k obtain e where e: "st_questions st ! k = (?qs ! k)\<lparr>explanation := e\<rparr>"
      and u: "q_id (?qs ! k) \<notin> Some ` set wrong_ids \<longrightarrow> st_questions st ! k = ?qs ! k"
      by blast
    from eq k have q: "questions_of output' ! k = st_questions st ! k" by simp
    show "q_id (questions_of output' ! k) = q_id (?qs ! k)
          \<and> question_type (questions_of output' ! k) = question_type (?qs ! k)
          \<and> stem (questions_of output' ! k) = stem (?qs ! k)
          \<and> choices (questions_of output' ! k) = choices (?qs ! k)
          \<and> correct_choice_ids (questions_of output' ! k) = correct_choice_ids (?qs ! k)
          \<and> q_chunk_id (questions_of output' ! k) = q_chunk_id (?qs ! k)
          \<and> (q_id (?qs ! k) \<notin> Some ` set wrong_ids \<longrightarrow> questions_of output' ! k = ?qs ! k)"
      unfolding q using e u by simp
  qed
  show ?thesis by (intro conjI top l' fr)
qed


theorem add_explanations_frame_witness:
  "\<exists>output' st.
      add_explanations_for_wrong_questions sample_files sample_output [''q_0001'']
        ''explain.txt'' answers 3 0 = Inr (output', st)
    \<and> explanation (questions_of output' ! 0) = Some ''because''
    \<and> explanation (questions_of sample_output ! 0) = None
    \<and> run_id output' = run_id sample_output
    \<and> run_settings output' = run_settings sample_output
    \<and> length (questions_of output') = length (questions_of sample_output)
    \<and> (\<forall>k<length (questions_of sample_output).
            q_id (questions_of output' ! k) = q_id (questions_of sample_output ! k)
          \<and> question_type (questions_of output' ! k) = question_type (questions_of sample_output ! k)
          \<and> stem (questions_of output' ! k) = stem (questions_of sample_output ! k)
          \<and> choices (questions_of output' ! k) = choices (questions_of sample_output ! k)
          \<and> correct_choice_ids (questions_of output' ! k)
              = correct_choice_ids (questions_of sample_output ! k)
          \<and> q_chunk_id (questions_of output' ! k) = q_chunk_id (questions_of sample_output ! k)
          \<and> (q_id (questions_of sample_output ! k) \<notin> Some ` set [''q_0001''] \<longrightarrow>
               questions_of output' ! k = questions_of sample_output ! k))"
proof -
  let ?run = "add_explanations_for_wrong_questions sample_files sample_output [''q_0001'']
        ''explain.txt'' answers 3 0"
  have one: "(case ?run of
               Inl e \<Rightarrow> False
             | Inr (out, st) \<Rightarrow> explanation (questions_of out ! 0) = Some ''because'')"
    by code_simp
  then obtain output' st where r: "?run = Inr (output', st)"
    and c: "explanation (questions_of output' ! 0) = Some ''because''"
    by (cases ?run) (simp_all split: prod.splits)
  have b: "explanation (questions_of sample_output ! 0) = None"
    by code_simp
  note f = add_explanations_frame[OF r]
  have f2: "run_id output' = run_id sample_output" using f by (elim conjE)
  have f4: "run_settings output' = run_settings sample_output" using f by (elim conjE)
  have f6: "length (questions_of output') = length (questions_of sample_output)"
    using f by (elim conjE)
  have f7: "\<forall>k<length (questions_of sample_output).
            q_id (questions_of output' ! k) = q_id (questions_of sample_output ! k)
          \<and> question_type (questions_of output' ! k) = question_type (questions_of sample_output ! k)
          \<and> stem (questions_of output' ! k) = stem (questions_of sample_output ! k)
          \<and> choices (questions_of output' ! k) = choices (questions_of sample_output ! k)
          \<and> correct_choice_ids (questions_of output' ! k)
              = correct_choice_ids (questions_of sample_output ! k)
          \<and> q_chunk_id (questions_of output' ! k) = q_chunk_id (questions_of sample_output ! k)
          \<and> (q_id (questions_of sample_output ! k) \<notin> Some ` set [''q_0001''] \<longrightarrow>
               questions_of output' ! k = questions_of sample_output ! k)"
    using f by (elim conjE)
  show ?thesis
    by (rule exI[of _ output'], rule exI[of _ st]) (intro conjI r c b f2 f4 f6 f7)
qed


end
